theory Spec2Isabelle
  imports Main "HOL-Library.Sublist"
begin

section \<open>The generator form (GeneratorCard) and its task client\<close>

subsection \<open>Values exchanged with the Root Agent\<close>

text \<open>
  The form posts \<^verbatim>\<open>{message: {role: "user", content: requestMessage}}\<close>.
\<close>

record user_message =
  role :: string
  content :: string

record a2a_request =
  message :: user_message

text \<open>
  A task object as the form reads it. Every field the code reaches through \<^verbatim>\<open>?.\<close> is
  optional; \<open>None\<close> is JavaScript's \<^verbatim>\<open>undefined\<close>. An object with a \<^verbatim>\<open>text\<close> property
  stands both for \<^verbatim>\<open>artifacts[i].parts[j]\<close> and for \<^verbatim>\<open>status.message.content\<close>.
  The fields \<open>artifact_type\<close> and \<open>task_error\<close> are the \<^verbatim>\<open>type\<close> of an artifact and the
  \<^verbatim>\<open>error\<close> of a task in the documented snapshot; the form never reads them.
\<close>

record text_obj =
  part_text :: "string option"

record artifact =
  artifact_type :: "string option"
  parts :: "text_obj list option"

record status_msg =
  msg_content :: "text_obj option"

record status =
  state :: "string option"
  status_message :: "status_msg option"

record task_result =
  task_id :: "string option"
  status :: "status option"
  artifacts :: "artifact list option"
  task_error :: "string option"

text \<open>
  What \<^verbatim>\<open>catch (err: any)\<close> reads of a thrown value: \<^verbatim>\<open>err.response?.data?.message\<close>,
  \<^verbatim>\<open>err.response?.data?.error?.message\<close> and \<^verbatim>\<open>err.message\<close>. The \<^verbatim>\<open>stack\<close> of an
  error is carried along; no handler reads it.
\<close>

record js_error =
  response_data_message :: "string option"
  response_data_error_message :: "string option"
  err_message :: "string option"
  stack :: "string option"

text \<open>An awaited axios call either throws or yields \<^verbatim>\<open>response.data\<close>.\<close>

datatype 'a reply = Rejects js_error | Resolves 'a

datatype http_request = Post string a2a_request | Get string

text \<open>
  The world outside the component: the reply to the POST, the reply to the \<open>n\<close>-th poll of
  a URL, and the clock string \<^verbatim>\<open>new Date().toLocaleTimeString()\<close> read by the \<open>n\<close>-th
  log line.
\<close>

record env =
  post :: "string \<Rightarrow> a2a_request \<Rightarrow> task_result reply"
  get :: "string \<Rightarrow> nat \<Rightarrow> task_result reply"
  now :: "nat \<Rightarrow> string"

subsection \<open>Component state\<close>

datatype tab = Url | Spec

record form_data =
  apiUrl :: "string option"
  openApiSpec :: "string option"

record generation_result =
  manifestUrl :: string
  downloadUrl :: string

text \<open>
  The four \<^verbatim>\<open>useState\<close> cells of the component, and two records of its effects: the
  toasts raised and the HTTP requests sent, in order.
\<close>

record component =
  isGenerating :: bool
  logs :: "string list"
  result :: "generation_result option"
  error :: "string option"
  toasts :: "string list"
  sent :: "http_request list"

subsection \<open>JavaScript operators used by the handler\<close>

text \<open>\<^verbatim>\<open>a || b\<close> on an optional string: the empty string and \<^verbatim>\<open>undefined\<close> are falsy.\<close>

definition truthy :: "string option \<Rightarrow> bool" where
  "truthy v = (case v of None \<Rightarrow> False | Some s \<Rightarrow> s \<noteq> [])"

definition or_else :: "string option \<Rightarrow> string \<Rightarrow> string" where
  "or_else v d = (case v of None \<Rightarrow> d | Some s \<Rightarrow> if s = [] then d else s)"

text \<open>A template literal prints \<^verbatim>\<open>undefined\<close> for a missing value.\<close>

definition template :: "string option \<Rightarrow> string" where
  "template v = (case v of None \<Rightarrow> ''undefined'' | Some s \<Rightarrow> s)"

text \<open>\<^verbatim>\<open>xs?.[0]\<close>\<close>

definition first :: "'a list option \<Rightarrow> 'a option" where
  "first v = (case v of None \<Rightarrow> None | Some [] \<Rightarrow> None | Some (x # _) \<Rightarrow> Some x)"

text \<open>\<^verbatim>\<open>taskResult.status?.state\<close>\<close>

definition status_state :: "task_result \<Rightarrow> string option" where
  "status_state t = (case status t of None \<Rightarrow> None | Some s \<Rightarrow> state s)"

text \<open>\<^verbatim>\<open>taskResult.status?.message?.content?.text\<close>\<close>

definition status_text :: "task_result \<Rightarrow> string option" where
  "status_text t =
     (case status t of None \<Rightarrow> None | Some s \<Rightarrow>
        (case status_message s of None \<Rightarrow> None | Some m \<Rightarrow>
           (case msg_content m of None \<Rightarrow> None | Some c \<Rightarrow> part_text c)))"

text \<open>\<^verbatim>\<open>taskResult.artifacts?.[0]?.parts?.[0]?.text\<close>\<close>

definition first_artifact_text :: "task_result \<Rightarrow> string option" where
  "first_artifact_text t =
     (case first (artifacts t) of None \<Rightarrow> None | Some a \<Rightarrow>
        (case first (parts a) of None \<Rightarrow> None | Some p \<Rightarrow> part_text p))"

text \<open>\<^verbatim>\<open>s.split('\n')\<close>\<close>

fun split_lines :: "string \<Rightarrow> string list" where
  "split_lines [] = [] # []"
| "split_lines (c # cs) =
     (if c = CHR 0x0A then [] # split_lines cs
      else (case split_lines cs of [] \<Rightarrow> [c] # [] | l # ls \<Rightarrow> (c # l) # ls))"

text \<open>\<^verbatim>\<open>line.trim()\<close> is falsy exactly when the line is white space only.\<close>

definition white_space :: "char \<Rightarrow> bool" where
  "white_space c = (c \<in> {CHR 0x09, CHR 0x0A, CHR 0x0B, CHR 0x0C, CHR 0x0D, CHR 0x20, CHR 0xA0})"

definition trim_truthy :: "string \<Rightarrow> bool" where
  "trim_truthy line = (\<exists>c \<in> set line. \<not> white_space c)"

subsection \<open>The submit handler with polling\<close>

definition addLog :: "env \<Rightarrow> string \<Rightarrow> component \<Rightarrow> component" where
  "addLog e m c = c\<lparr>logs := logs c @ [now e (length (logs c)) @ '': '' @ m]\<rparr>"

definition send :: "http_request \<Rightarrow> component \<Rightarrow> component" where
  "send r c = c\<lparr>sent := sent c @ [r]\<rparr>"

definition requestMessage :: "tab \<Rightarrow> form_data \<Rightarrow> string" where
  "requestMessage activeTab d =
     (if activeTab = Url
      then ''Generate an MCP server for the API at '' @ template (apiUrl d)
      else ''Generate an MCP server from this OpenAPI specification:''
             @ [CHR 0x0A, CHR 0x0A] @ template (openApiSpec d))"

definition a2aRequest :: "string \<Rightarrow> a2a_request" where
  "a2aRequest m = \<lparr>message = \<lparr>role = ''user'', content = m\<rparr>\<rparr>"

definition send_url :: string where
  "send_url = ''http://127.0.0.1:10000/tasks/send''"

definition poll_url :: "string option \<Rightarrow> string" where
  "poll_url taskId = ''/root-agent/tasks/'' @ template taskId"

text \<open>
  The \<^verbatim>\<open>while\<close> loop of \<^verbatim>\<open>onSubmit\<close>. It may run forever, so it is a partial function:
  \<open>None\<close> is a loop that never leaves. A poll that throws leaves the loop with \<open>Inl\<close>.
  The counter \<open>n\<close> numbers the polls.
\<close>

partial_function (option) poll ::
  "env \<Rightarrow> string option \<Rightarrow> nat \<Rightarrow> component \<Rightarrow> task_result
     \<Rightarrow> ((js_error + task_result) \<times> component) option"
where
  "poll e taskId n c taskResult =
     (if status_state taskResult \<noteq> Some ''completed'' \<and> status_state taskResult \<noteq> Some ''failed''
      then
        (let c1 = send (Get (poll_url taskId)) (addLog e ''Processing request...'' c) in
         case get e (poll_url taskId) n of
           Rejects err \<Rightarrow> Some (Inl err, c1)
         | Resolves t \<Rightarrow>
             poll e taskId (Suc n)
               (if truthy (status_text t) then addLog e (or_else (status_text t) []) c1 else c1) t)
      else Some (Inr taskResult, c))"

definition new_Error :: "string \<Rightarrow> js_error" where
  "new_Error m = \<lparr>response_data_message = None, response_data_error_message = None,
                  err_message = Some m, stack = None\<rparr>"

definition log_lines :: "env \<Rightarrow> string \<Rightarrow> component \<Rightarrow> component" where
  "log_lines e artifactText c =
     (if artifactText \<noteq> []
      then foldl (\<lambda>c' line. if trim_truthy line then addLog e line c' else c')
             (addLog e ''Response from Root Agent:'' c) (split_lines artifactText)
      else c)"

text \<open>The statements after the loop, inside \<^verbatim>\<open>try\<close>.\<close>

definition after_poll :: "env \<Rightarrow> task_result \<Rightarrow> component \<Rightarrow> (js_error + unit) \<times> component" where
  "after_poll e taskResult c =
     (if status_state taskResult = Some ''failed''
      then (Inl (new_Error (or_else (status_text taskResult) ''Task failed'')), c)
      else
        (let c1 = addLog e ''MCP server generated successfully!'' c;
             artifactText = or_else (first_artifact_text taskResult) [];
             c2 = c1\<lparr>result := Some \<lparr>manifestUrl = ''/root-agent/generated/manifest.json'',
                                    downloadUrl = ''/root-agent/generated/download''\<rparr>\<rparr>
         in (Inr (), log_lines e artifactText c2)))"

text \<open>The statements of \<^verbatim>\<open>try\<close> up to the POST.\<close>

definition start_request :: "env \<Rightarrow> tab \<Rightarrow> form_data \<Rightarrow> component \<Rightarrow> component" where
  "start_request e activeTab d c =
     (let c1 = addLog e ''Started MCP server generation...'' c;
          c2 = addLog e ''Connecting to Root Agent...'' c1;
          c3 = addLog e ''Analyzing API structure...'' c2
      in send (Post send_url (a2aRequest (requestMessage activeTab d))) c3)"

definition try_block ::
  "env \<Rightarrow> tab \<Rightarrow> form_data \<Rightarrow> component \<Rightarrow> ((js_error + unit) \<times> component) option" where
  "try_block e activeTab d c =
     (let c4 = start_request e activeTab d c
      in case post e send_url (a2aRequest (requestMessage activeTab d)) of
           Rejects err \<Rightarrow> Some (Inl err, c4)
         | Resolves taskResult \<Rightarrow>
             (case poll e (task_id taskResult) 0 c4 taskResult of
                None \<Rightarrow> None
              | Some (Inl err, c5) \<Rightarrow> Some (Inl err, c5)
              | Some (Inr t, c5) \<Rightarrow> Some (after_poll e t c5)))"

definition catch_block :: "env \<Rightarrow> js_error \<Rightarrow> component \<Rightarrow> component" where
  "catch_block e err c =
     (let errorMessage =
            or_else (response_data_message err) (or_else (err_message err) ''Generation failed'');
          c1 = c\<lparr>error := Some errorMessage\<rparr>;
          c2 = addLog e (''Error: '' @ errorMessage) c1
      in c2\<lparr>toasts := toasts c2 @
            [''Generation failed. Please ensure the Root Agent is running on port 10000.'']\<rparr>)"

definition finally_block :: "component \<Rightarrow> component" where
  "finally_block c = c\<lparr>isGenerating := False\<rparr>"

text \<open>The four state updates with which both handlers begin.\<close>

definition begin_submit :: "component \<Rightarrow> component" where
  "begin_submit c = c\<lparr>isGenerating := True, logs := [], error := None, result := None\<rparr>"

definition onSubmit :: "env \<Rightarrow> tab \<Rightarrow> form_data \<Rightarrow> component \<Rightarrow> component option" where
  "onSubmit e activeTab d c =
     (case try_block e activeTab d (begin_submit c) of
        None \<Rightarrow> None
      | Some (Inl err, c1) \<Rightarrow> Some (finally_block (catch_block e err c1))
      | Some (Inr _, c1) \<Rightarrow> Some (finally_block c1))"

text \<open>
  The loop again, with a bound \<open>k\<close> on the number of polls and without the component:
  \<open>None\<close> is a loop that is still polling after \<open>k\<close> polls. It names, for a theorem,
  the snapshot or the error with which the loop leaves.
\<close>

fun poll_within :: "env \<Rightarrow> string \<Rightarrow> nat \<Rightarrow> nat \<Rightarrow> task_result \<Rightarrow> (js_error + task_result) option" where
  "poll_within e url n 0 taskResult =
     (if status_state taskResult \<noteq> Some ''completed'' \<and> status_state taskResult \<noteq> Some ''failed''
      then None
      else Some (Inr taskResult))"
| "poll_within e url n (Suc k) taskResult =
     (if status_state taskResult \<noteq> Some ''completed'' \<and> status_state taskResult \<noteq> Some ''failed''
      then (case get e url n of
              Rejects err \<Rightarrow> Some (Inl err)
            | Resolves t \<Rightarrow> poll_within e url (Suc n) k t)
      else Some (Inr taskResult))"

text \<open>
  The handler is asynchronous: between two polls the component is rendered with the
  state reached so far. \<open>poll_upto\<close> is the loop cut after \<open>k\<close> answered polls: it gives
  the component at that moment and, if the loop has left by then, how it left.
  \<open>onSubmit_upto\<close> is the whole handler cut in the same way: the component when the
  handler has ended, or else when the \<open>k\<close>-th poll has been answered.
\<close>

fun poll_upto ::
  "env \<Rightarrow> string option \<Rightarrow> nat \<Rightarrow> nat \<Rightarrow> component \<Rightarrow> task_result
     \<Rightarrow> (js_error + task_result) option \<times> component"
where
  "poll_upto e taskId n 0 c taskResult =
     (if status_state taskResult \<noteq> Some ''completed'' \<and> status_state taskResult \<noteq> Some ''failed''
      then (None, c)
      else (Some (Inr taskResult), c))"
| "poll_upto e taskId n (Suc k) c taskResult =
     (if status_state taskResult \<noteq> Some ''completed'' \<and> status_state taskResult \<noteq> Some ''failed''
      then
        (let c1 = send (Get (poll_url taskId)) (addLog e ''Processing request...'' c) in
         case get e (poll_url taskId) n of
           Rejects err \<Rightarrow> (Some (Inl err), c1)
         | Resolves t \<Rightarrow>
             poll_upto e taskId (Suc n) k
               (if truthy (status_text t) then addLog e (or_else (status_text t) []) c1 else c1) t)
      else (Some (Inr taskResult), c))"

definition try_upto ::
  "nat \<Rightarrow> env \<Rightarrow> tab \<Rightarrow> form_data \<Rightarrow> component \<Rightarrow> (js_error + unit) option \<times> component" where
  "try_upto k e activeTab d c =
     (let c4 = start_request e activeTab d c
      in case post e send_url (a2aRequest (requestMessage activeTab d)) of
           Rejects err \<Rightarrow> (Some (Inl err), c4)
         | Resolves taskResult \<Rightarrow>
             (case poll_upto e (task_id taskResult) 0 k c4 taskResult of
                (None, c5) \<Rightarrow> (None, c5)
              | (Some (Inl err), c5) \<Rightarrow> (Some (Inl err), c5)
              | (Some (Inr t), c5) \<Rightarrow> (Some (fst (after_poll e t c5)), snd (after_poll e t c5))))"

definition onSubmit_upto :: "nat \<Rightarrow> env \<Rightarrow> tab \<Rightarrow> form_data \<Rightarrow> component \<Rightarrow> component" where
  "onSubmit_upto k e activeTab d c =
     (case try_upto k e activeTab d (begin_submit c) of
        (None, c1) \<Rightarrow> c1
      | (Some (Inl err), c1) \<Rightarrow> finally_block (catch_block e err c1)
      | (Some (Inr _), c1) \<Rightarrow> finally_block c1)"

subsection \<open>The submit handler of the query form\<close>

text \<open>
  The later \<^verbatim>\<open>GeneratorCard\<close> has one free-text field and no polling: it takes the
  reply to the POST as the finished task.
\<close>

record query_form_data =
  query :: string

definition onSubmit_query :: "env \<Rightarrow> query_form_data \<Rightarrow> component \<Rightarrow> component" where
  "onSubmit_query e d c =
     (let c0 = begin_submit c;
          c1 = addLog e ''Started MCP server generation...'' c0;
          c2 = addLog e ''Connecting to MCP generation agent...'' c1;
          c3 = addLog e ''Sending request to MCP generation agent...'' c2;
          c4 = send (Post send_url (a2aRequest (query d))) c3;
          (thrown, c5) =
            (case post e send_url (a2aRequest (query d)) of
               Rejects err \<Rightarrow> (Some err, c4)
             | Resolves respData \<Rightarrow>
                 (let c5 = addLog e ''Received response from MCP generation agent...'' c4 in
                  if truthy (first_artifact_text respData)
                  then (None,
                        (addLog e ''MCP server generated successfully!'' c5)
                          \<lparr>result := Some \<lparr>manifestUrl = ''MCP Server for query: '' @ [CHR 0x22] @ query d @ [CHR 0x22],
                                           downloadUrl = or_else (first_artifact_text respData) []\<rparr>\<rparr>)
                  else (Some (new_Error ''No MCP server code found in agent response''), c5)));
          c6 = (case thrown of
                  None \<Rightarrow> c5
                | Some err \<Rightarrow>
                    (let errorMessage =
                           or_else (response_data_error_message err)
                             (or_else (err_message err) ''MCP server generation failed'');
                         c' = addLog e (''Error: '' @ errorMessage) (c5\<lparr>error := Some errorMessage\<rparr>)
                     in c'\<lparr>toasts := toasts c' @ [''MCP server generation failed. Please try again.'']\<rparr>))
      in c6\<lparr>isGenerating := False\<rparr>)"

subsection \<open>Validation before the handler runs\<close>

text \<open>
  \<^verbatim>\<open>register('apiUrl', {required: ..., pattern: {value: /^https?:\/\/.+/, ...}})\<close> and
  \<^verbatim>\<open>register('openApiSpec', {required: ...})\<close>; only the input of the active tab is
  mounted. \<^verbatim>\<open>handleSubmit(onSubmit)\<close> of react-hook-form checks the rules of the mounted
  inputs, \<^verbatim>\<open>required\<close> before \<^verbatim>\<open>pattern\<close>, and calls \<^verbatim>\<open>onSubmit\<close> only when none fails;
  otherwise it stores the message of the failed rule in \<^verbatim>\<open>formState.errors\<close>, which the
  form renders under the input.
\<close>

fun strip_prefix :: "string \<Rightarrow> string \<Rightarrow> string option" where
  "strip_prefix [] s = Some s"
| "strip_prefix (p # ps) [] = None"
| "strip_prefix (p # ps) (c # cs) = (if p = c then strip_prefix ps cs else None)"

definition line_terminator :: "char \<Rightarrow> bool" where
  "line_terminator c = (c = CHR 0x0A \<or> c = CHR 0x0D)"

text \<open>\<^verbatim>\<open>.+\<close> with nothing after it: one character that is no line terminator.\<close>

definition any_char_plus :: "string \<Rightarrow> bool" where
  "any_char_plus s = (case s of [] \<Rightarrow> False | c # _ \<Rightarrow> \<not> line_terminator c)"

text \<open>\<^verbatim>\<open>/^https?:\/\/.+/\<close>: the optional \<^verbatim>\<open>s\<close> is tried first, then skipped.\<close>

definition colon_slashes_rest :: "string \<Rightarrow> bool" where
  "colon_slashes_rest s = (case strip_prefix ''://'' s of None \<Rightarrow> False | Some r \<Rightarrow> any_char_plus r)"

definition url_pattern :: "string \<Rightarrow> bool" where
  "url_pattern s =
     (case strip_prefix ''http'' s of
        None \<Rightarrow> False
      | Some r \<Rightarrow>
          (case strip_prefix ''s'' r of
             None \<Rightarrow> colon_slashes_rest r
           | Some r' \<Rightarrow> colon_slashes_rest r' \<or> colon_slashes_rest r))"

record form_errors =
  apiUrl_error :: "string option"
  openApiSpec_error :: "string option"

definition required_rule :: "string \<Rightarrow> string option \<Rightarrow> string option" where
  "required_rule msg v = (if truthy v then None else Some msg)"

definition validate_apiUrl :: "string option \<Rightarrow> string option" where
  "validate_apiUrl v =
     (case required_rule ''API URL is required'' v of
        Some m \<Rightarrow> Some m
      | None \<Rightarrow> if url_pattern (or_else v []) then None else Some ''Please enter a valid URL'')"

definition validate :: "tab \<Rightarrow> form_data \<Rightarrow> form_errors" where
  "validate activeTab d =
     (if activeTab = Url
      then \<lparr>apiUrl_error = validate_apiUrl (apiUrl d), openApiSpec_error = None\<rparr>
      else \<lparr>apiUrl_error = None,
            openApiSpec_error = required_rule ''OpenAPI specification is required'' (openApiSpec d)\<rparr>)"

definition handleSubmit ::
  "env \<Rightarrow> tab \<Rightarrow> form_data \<Rightarrow> component \<Rightarrow> (form_errors \<times> component) option" where
  "handleSubmit e activeTab d c =
     (let errors = validate activeTab d in
      if apiUrl_error errors = None \<and> openApiSpec_error errors = None
      then map_option (Pair errors) (onSubmit e activeTab d c)
      else Some (errors, c))"

subsection \<open>Concrete servers and inputs\<close>

definition idle :: component where
  "idle = \<lparr>isGenerating = False, logs = [], result = None, error = None, toasts = [], sent = []\<rparr>"

definition snapshot :: "string \<Rightarrow> task_result" where
  "snapshot s =
     \<lparr>task_id = Some ''t1'', status = Some \<lparr>state = Some s, status_message = None\<rparr>,
      artifacts = None, task_error = None\<rparr>"

definition connection_lost :: js_error where
  "connection_lost =
     \<lparr>response_data_message = None, response_data_error_message = None,
      err_message = Some ''Network Error'', stack = Some ''AxiosError: Network Error at XMLHttpRequest.handleError''\<rparr>"

text \<open>A server that answers the POST and every poll with the same task object.\<close>

definition steady_env :: "task_result \<Rightarrow> env" where
  "steady_env t =
     \<lparr>post = (\<lambda>url body. Resolves t), get = (\<lambda>url n. Resolves t), now = (\<lambda>n. ''12:00:00'')\<rparr>"

text \<open>
  A server that answers the POST with \<open>t\<close> and the \<open>n\<close>-th poll with the \<open>n\<close>-th task
  object of a script; the connection is lost after the script.
\<close>

definition scripted_env :: "task_result \<Rightarrow> task_result list \<Rightarrow> env" where
  "scripted_env t ts =
     \<lparr>post = (\<lambda>url body. Resolves t),
      get = (\<lambda>url n. if n < length ts then Resolves (ts ! n) else Rejects connection_lost),
      now = (\<lambda>n. ''12:00:00'')\<rparr>"

text \<open>The endpoint \<^verbatim>\<open>POST /tasks\<close> of the interface description, on the Root Agent's address.\<close>

definition tasks_endpoint :: string where
  "tasks_endpoint = ''http://127.0.0.1:10000/tasks''"

definition example_data :: form_data where
  "example_data = \<lparr>apiUrl = Some ''https://api.example.com'', openApiSpec = None\<rparr>"





text \<open>A failed task whose diagnostic is in the \<^verbatim>\<open>error\<close> field of the snapshot.\<close>

definition failed_with_error :: task_result where
  "failed_with_error = (snapshot ''failed'')\<lparr>task_error := Some ''extractor unreachable''\<rparr>"

text \<open>A failed task whose diagnostic is the text of its status message.\<close>

definition failed_with_message :: task_result where
  "failed_with_message =
     \<lparr>task_id = Some ''t1'',
      status = Some \<lparr>state = Some ''failed'',
                      status_message = Some \<lparr>msg_content = Some \<lparr>part_text = Some ''spec is invalid''\<rparr>\<rparr>\<rparr>,
      artifacts = None, task_error = None\<rparr>"

section \<open>The task orchestration core\<close>

text \<open>
  Modelled from the spec: the Task record, the Task Store operations and the Root
  Orchestrator's pipeline state machine. The Root Agent (\<^verbatim>\<open>agents/root_agent/agent.py\<close>)
  and the three agents behind it are not among the sources at hand; only the form that
  calls them is. The definitions of this section follow the specification's data model,
  Task Store contract, pipeline algorithm, retry policy and cancellation rule.
\<close>

subsection \<open>Task record\<close>

text \<open>
  Modelled from the spec: the five states of a task, an artifact as a typed payload, a
  history entry, and the fields of the Task record.
\<close>

datatype task_state = Pending | Running | Input_required | Completed | Failed

record spec_artifact =
  kind :: string
  payload :: string

record history_entry =
  ts :: nat
  entry_text :: string

text \<open>
  Modelled from the spec: the input of a task is the caller's request; an answer to a
  clarification amends it and does not replace it.
\<close>

record task_input =
  instruction :: string
  clarifications :: "string list"

record task =
  t_id :: nat
  t_state :: task_state
  t_input :: task_input
  t_history :: "history_entry list"
  t_artifacts :: "spec_artifact list"
  t_error :: "string option"
  createdAt :: nat
  updatedAt :: nat



subsection \<open>Task Store\<close>

text \<open>
  Modelled from the spec: the two failures of the Task Store contract, and the terminal
  states \<^verbatim>\<open>completed\<close> and \<^verbatim>\<open>failed\<close>. One task record is modelled: tasks are independent
  and share nothing but the store.
\<close>

datatype store_error = NotFound | InvalidTransition

definition terminal :: "task_state \<Rightarrow> bool" where
  "terminal s = (s = Completed \<or> s = Failed)"

text \<open>
  Modelled from the spec: the edges of the state machine,
  \<^verbatim>\<open>pending -> running -> {input_required <-> running} -> {completed | failed}\<close>, and the
  cancellation of a pending, running or input-required task, which ends in \<^verbatim>\<open>failed\<close>.
\<close>

fun legal :: "task_state \<Rightarrow> task_state \<Rightarrow> bool" where
  "legal Pending Running = True"
| "legal Running Input_required = True"
| "legal Input_required Running = True"
| "legal Running Completed = True"
| "legal Running Failed = True"
| "legal Pending Failed = True"
| "legal Input_required Failed = True"
| "legal _ _ = False"

text \<open>Modelled from the spec: \<^verbatim>\<open>create(input) -> Task{id, state=pending}\<close>.\<close>

definition create :: "nat \<Rightarrow> nat \<Rightarrow> string \<Rightarrow> task" where
  "create i clock request =
     \<lparr>t_id = i, t_state = Pending,
      t_input = \<lparr>instruction = request, clarifications = []\<rparr>,
      t_history = [], t_artifacts = [], t_error = None,
      createdAt = clock, updatedAt = clock\<rparr>"

text \<open>Modelled from the spec: \<^verbatim>\<open>appendMessage(id, msg)\<close> and \<^verbatim>\<open>appendArtifact(id, artifact)\<close>.\<close>

definition appendMessage :: "nat \<Rightarrow> string \<Rightarrow> task \<Rightarrow> task" where
  "appendMessage clock msg t =
     t\<lparr>t_history := t_history t @ [\<lparr>ts = clock, entry_text = msg\<rparr>], updatedAt := clock\<rparr>"

definition appendArtifact :: "nat \<Rightarrow> spec_artifact \<Rightarrow> task \<Rightarrow> task" where
  "appendArtifact clock a t = t\<lparr>t_artifacts := t_artifacts t @ [a], updatedAt := clock\<rparr>"

text \<open>
  Modelled from the spec: \<^verbatim>\<open>transition(id, newState, error?)\<close> fails with
  \<^verbatim>\<open>InvalidTransition\<close> if the requested edge is not legal.
\<close>

definition transition :: "nat \<Rightarrow> task_state \<Rightarrow> string option \<Rightarrow> task \<Rightarrow> store_error + task" where
  "transition clock s err t =
     (if legal (t_state t) s
      then Inr (t\<lparr>t_state := s, t_error := (if s = Failed then err else t_error t),
                 updatedAt := clock\<rparr>)
      else Inl InvalidTransition)"

subsection \<open>Root Orchestrator\<close>

text \<open>
  Modelled from the spec: the pipeline is an ordered list of stage descriptors; the retry
  bound is a policy constant handed to the orchestrator.
\<close>

definition pipeline :: "string list" where
  "pipeline = [''extract'', ''synthesize'', ''generate'']"

definition stage_name :: "nat \<Rightarrow> string" where
  "stage_name k = (if k < length pipeline then pipeline ! k else [])"

record policy =
  retry_bound :: nat

text \<open>
  Modelled from the spec: \<^verbatim>\<open>AgentResult{status: ok|needs-input|error, artifact?, message?}\<close>
  with the two classes of error of the error taxonomy.
\<close>

datatype error_class = TransportError | AdapterRejection

datatype agent_result = Ok spec_artifact | Needs_input string | Error error_class string

text \<open>
  Modelled from the spec: the worker that drives one task. \<open>stage\<close> is the index of the
  stage in progress, \<open>retries\<close> the retries spent on it, \<open>dispatched\<close> the stages handed
  to the Agent Client so far, in order.
\<close>

record worker =
  task :: task
  stage :: nat
  retries :: nat
  cancel_requested :: bool
  dispatched :: "nat list"

text \<open>
  Modelled from the spec: what can happen to a task. The API server hands it to the
  orchestrator, a dispatch returns, the caller answers a clarification, the caller
  cancels. A new worker holds the task as \<open>create\<close> returns it; entering a stage appends
  the history entry of its start and dispatches it; failing appends the diagnostic to the
  history and moves the task to \<^verbatim>\<open>failed\<close> with that diagnostic as its error.
\<close>

datatype event = Start | Result agent_result | Answer string | Cancel

definition new_worker :: "nat \<Rightarrow> nat \<Rightarrow> string \<Rightarrow> worker" where
  "new_worker i clock request =
     \<lparr>task = create i clock request, stage = 0, retries = 0, cancel_requested = False,
      dispatched = []\<rparr>"

definition with_task :: "worker \<Rightarrow> store_error + task \<Rightarrow> store_error + worker" where
  "with_task w r = (case r of Inl x \<Rightarrow> Inl x | Inr t \<Rightarrow> Inr (w\<lparr>task := t\<rparr>))"

definition enter_stage :: "nat \<Rightarrow> nat \<Rightarrow> worker \<Rightarrow> worker" where
  "enter_stage clock k w =
     w\<lparr>task := appendMessage clock (''stage:'' @ stage_name k @ '' started'') (task w),
       stage := k, retries := 0, dispatched := dispatched w @ [k]\<rparr>"

definition fail :: "nat \<Rightarrow> string \<Rightarrow> worker \<Rightarrow> store_error + worker" where
  "fail clock msg w =
     with_task w (transition clock Failed (Some msg) (appendMessage clock msg (task w)))"

text \<open>
  Modelled from the spec: steps 1 to 5 of the pipeline algorithm, the retry policy
  (only transport-class errors are retried, up to the bound), re-entry at the suspended
  stage on an answer, and cooperative cancellation (the flag is checked when a dispatch
  returns; the result of that dispatch is discarded).
\<close>

fun step :: "policy \<Rightarrow> nat \<Rightarrow> event \<Rightarrow> worker \<Rightarrow> store_error + worker" where
  "step p clock Start w =
     (if t_state (task w) = Pending
      then (case transition clock Running None (task w) of
              Inl x \<Rightarrow> Inl x
            | Inr t \<Rightarrow> Inr (enter_stage clock 0 (w\<lparr>task := t\<rparr>)))
      else Inr w)"
| "step p clock (Result r) w =
     (if t_state (task w) \<noteq> Running then Inr w
      else if cancel_requested w then fail clock ''cancelled'' w
      else (case r of
              Ok a \<Rightarrow>
                (let t1 = appendMessage clock (''stage:'' @ stage_name (stage w) @ '' done'')
                            (appendArtifact clock a (task w))
                 in if Suc (stage w) < length pipeline
                    then Inr (enter_stage clock (Suc (stage w)) (w\<lparr>task := t1\<rparr>))
                    else with_task w (transition clock Completed None t1))
            | Needs_input msg \<Rightarrow>
                with_task w (transition clock Input_required None (appendMessage clock msg (task w)))
            | Error TransportError msg \<Rightarrow>
                (if retries w < retry_bound p
                 then Inr (w\<lparr>task := appendMessage clock
                                        (''stage:'' @ stage_name (stage w) @ '' retry'') (task w),
                             retries := Suc (retries w),
                             dispatched := dispatched w @ [stage w]\<rparr>)
                 else fail clock msg w)
            | Error AdapterRejection msg \<Rightarrow> fail clock msg w))"
| "step p clock (Answer a) w =
     (if t_state (task w) = Input_required
      then (case transition clock Running None
                   ((task w)\<lparr>t_input := (t_input (task w))
                                \<lparr>clarifications := clarifications (t_input (task w)) @ [a]\<rparr>\<rparr>) of
              Inl x \<Rightarrow> Inl x
            | Inr t \<Rightarrow> Inr (w\<lparr>task := t, dispatched := dispatched w @ [stage w]\<rparr>))
      else Inr w)"
| "step p clock Cancel w =
     (if t_state (task w) = Running then Inr (w\<lparr>cancel_requested := True\<rparr>)
      else if t_state (task w) = Pending \<or> t_state (task w) = Input_required
      then fail clock ''cancelled'' w
      else Inr w)"

text \<open>
  Modelled from the spec: a run of the worker, timed events applied in order, stopping at
  the first store error.
\<close>

fun run :: "policy \<Rightarrow> (nat \<times> event) list \<Rightarrow> worker \<Rightarrow> store_error + worker" where
  "run p [] w = Inr w"
| "run p ((clock, ev) # evs) w =
     (case step p clock ev w of Inl x \<Rightarrow> Inl x | Inr w' \<Rightarrow> run p evs w')"

text \<open>
  Modelled from the spec: the observations of a run, that is the workers seen after each
  event, the first one included.
\<close>

fun trace :: "policy \<Rightarrow> (nat \<times> event) list \<Rightarrow> worker \<Rightarrow> worker list" where
  "trace p [] w = [w]"
| "trace p ((clock, ev) # evs) w =
     w # (case step p clock ev w of Inl x \<Rightarrow> [] | Inr w' \<Rightarrow> trace p evs w')"

text \<open>Modelled from the spec: the edges of the state machine, as a set of pairs.\<close>

definition edges :: "(task_state \<times> task_state) set" where
  "edges = {(Pending, Running), (Running, Input_required), (Input_required, Running),
            (Running, Completed), (Running, Failed), (Pending, Failed), (Input_required, Failed)}"

subsection \<open>Concrete runs\<close>

definition two_retries :: policy where
  "two_retries = \<lparr>retry_bound = 2\<rparr>"

definition api_description :: spec_artifact where
  "api_description = \<lparr>kind = ''api-description'', payload = ''GET /forecast''\<rparr>"

definition tool_definitions :: spec_artifact where
  "tool_definitions = \<lparr>kind = ''tool-definitions'', payload = ''get_forecast''\<rparr>"

definition server_code :: spec_artifact where
  "server_code = \<lparr>kind = ''final-code'', payload = ''server.py''\<rparr>"

text \<open>
  A task that is started, extracted, suspended by the Synthesizer for a clarification,
  answered, and then carried to the end; and the first three events of that run alone.
\<close>

definition suspended_run :: "(nat \<times> event) list" where
  "suspended_run =
     [(1, Start), (2, Result (Ok api_description)), (3, Result (Needs_input ''which version?''))]"

definition full_run :: "(nat \<times> event) list" where
  "full_run =
     suspended_run @
     [(4, Answer ''version 2''), (5, Result (Ok tool_definitions)), (6, Result (Ok server_code)),
      (7, Cancel)]"

section \<open>Properties of the form\<close>

lemma begin_submit_simps [simp]:
  "sent (begin_submit c) = sent c" "toasts (begin_submit c) = toasts c"
  "isGenerating (begin_submit c)" "logs (begin_submit c) = []"
  "error (begin_submit c) = None" "result (begin_submit c) = None"
  by (simp_all add: begin_submit_def)

subsection \<open>The polling loop\<close>

lemma poll_within_poll:
  "poll_within e (poll_url tid) n k t = Some r \<Longrightarrow>
     \<exists>c' j. poll e tid n c t = Some (r, c') \<and> sent c' = sent c @ replicate j (Get (poll_url tid))
       \<and> isGenerating c' = isGenerating c \<and> result c' = result c \<and> error c' = error c
       \<and> toasts c' = toasts c"
proof (induction k arbitrary: n c t)
  case 0
  then show ?case by (subst poll.simps) (auto split: if_splits)
next
  case (Suc k)
  show ?case
  proof (cases "status_state t \<noteq> Some ''completed'' \<and> status_state t \<noteq> Some ''failed''")
    case False
    with Suc.prems show ?thesis by (subst poll.simps) (auto split: if_splits)
  next
    case True
    let ?c1 = "send (Get (poll_url tid)) (addLog e ''Processing request...'' c)"
    have c1: "sent ?c1 = sent c @ replicate (Suc 0) (Get (poll_url tid))"
      "isGenerating ?c1 = isGenerating c" "result ?c1 = result c" "error ?c1 = error c"
      "toasts ?c1 = toasts c"
      by (simp_all add: send_def addLog_def)
    show ?thesis
    proof (cases "get e (poll_url tid) n")
      case (Rejects err)
      with True Suc.prems have "poll e tid n c t = Some (r, ?c1)"
        by (subst poll.simps) (auto simp: Let_def)
      with c1 show ?thesis by blast
    next
      case (Resolves t')
      let ?c2 = "if truthy (status_text t') then addLog e (or_else (status_text t') []) ?c1 else ?c1"
      have c2: "sent ?c2 = sent ?c1" "isGenerating ?c2 = isGenerating ?c1"
        "result ?c2 = result ?c1" "error ?c2 = error ?c1" "toasts ?c2 = toasts ?c1"
        by (simp_all add: addLog_def)
      from Resolves True Suc.prems have "poll_within e (poll_url tid) (Suc n) k t' = Some r" by simp
      from Suc.IH[OF this, of ?c2] obtain c' j where
        p: "poll e tid (Suc n) ?c2 t' = Some (r, c')"
        and s: "sent c' = sent ?c2 @ replicate j (Get (poll_url tid))"
        and f: "isGenerating c' = isGenerating ?c2" "result c' = result ?c2"
          "error c' = error ?c2" "toasts c' = toasts ?c2"
        by blast
      from p Resolves True have "poll e tid n c t = Some (r, c')"
        by (subst poll.simps) (simp add: Let_def)
      moreover from s c1(1) c2(1) have "sent c' = sent c @ replicate (Suc j) (Get (poll_url tid))"
        by (simp add: replicate_append_same)
      ultimately show ?thesis using f c1 c2 by (metis (no_types, lifting))
    qed
  qed
qed

lemma poll_within_terminal:
  "poll_within e url n k t = Some (Inr t') \<Longrightarrow>
     status_state t' = Some ''completed'' \<or> status_state t' = Some ''failed''"
  by (induction k arbitrary: n t) (auto split: if_splits reply.splits)

lemma poll_within_steady:
  "status_state t \<noteq> Some ''completed'' \<Longrightarrow> status_state t \<noteq> Some ''failed'' \<Longrightarrow>
   (\<And>i. get e url i = Resolves t) \<Longrightarrow> poll_within e url n k t = None"
  by (induction k arbitrary: n) auto


lemma poll_poll_within:
  assumes "poll e tid n c t = Some rc"
  shows "\<exists>k. poll_within e (poll_url tid) n k t = Some (fst rc)"
proof (rule poll.raw_induct[OF _ assms])
  fix f e tid n c t rc
  assume IH: "\<And>e tid n c t rc. f e tid n c t = Some rc
                \<Longrightarrow> \<exists>k. poll_within e (poll_url tid) n k t = Some (fst rc)"
    and eq: "(if status_state t \<noteq> Some ''completed'' \<and> status_state t \<noteq> Some ''failed''
      then let c1 = send (Get (poll_url tid)) (addLog e ''Processing request...'' c)
           in case get e (poll_url tid) n of
              Rejects err \<Rightarrow> Some (Inl err, c1)
              | Resolves t' \<Rightarrow>
                  f e tid (Suc n)
                   (if truthy (status_text t')
                    then addLog e (or_else (status_text t') []) c1 else c1)
                   t'
      else Some (Inr t, c)) = Some rc"
  show "\<exists>k. poll_within e (poll_url tid) n k t = Some (fst rc)"
  proof (cases "status_state t \<noteq> Some ''completed'' \<and> status_state t \<noteq> Some ''failed''")
    case False
    with eq have "poll_within e (poll_url tid) n 0 t = Some (fst rc)" by auto
    then show ?thesis ..
  next
    case True
    show ?thesis
    proof (cases "get e (poll_url tid) n")
      case (Rejects err)
      with True eq have "poll_within e (poll_url tid) n (Suc 0) t = Some (fst rc)"
        by (auto simp: Let_def)
      then show ?thesis ..
    next
      case (Resolves t')
      with True eq obtain c' where "f e tid (Suc n) c' t' = Some rc"
        by (auto simp: Let_def)
      from IH[OF this] obtain k where "poll_within e (poll_url tid) (Suc n) k t' = Some (fst rc)" ..
      with True Resolves have "poll_within e (poll_url tid) n (Suc k) t = Some (fst rc)" by simp
      then show ?thesis ..
    qed
  qed
qed

lemma poll_never_leaves:
  assumes "\<And>k. poll_within e (poll_url tid) n k t = None"
  shows "poll e tid n c t = None"
proof (rule ccontr)
  assume "poll e tid n c t \<noteq> None"
  then obtain rc where "poll e tid n c t = Some rc" by auto
  from poll_poll_within[OF this] assms show False by simp
qed

lemma status_state_snapshot [simp]: "status_state (snapshot s) = Some s"
  by (simp add: status_state_def snapshot_def)

lemma get_steady [simp]: "get (steady_env t) url n = Resolves t"
  by (simp add: steady_env_def)

lemma post_steady [simp]: "post (steady_env t) url b = Resolves t"
  by (simp add: steady_env_def)


text \<open>
  Claim C1. The polling loop should end as soon as the task is completed, failed or
  input-required. The loop tests \<^verbatim>\<open>completed\<close> and \<^verbatim>\<open>failed\<close> only, although the
  integration notes say that the form checks for \<^verbatim>\<open>completed\<close>, \<^verbatim>\<open>failed\<close> or
  \<^verbatim>\<open>input_required\<close>: against a server whose task stays \<^verbatim>\<open>input_required\<close> until the
  caller answers, the loop polls for ever.
\<close>
theorem poll_input_required_never_leaves:
  "poll (steady_env (snapshot ''input_required'')) (Some ''t1'') 0 idle (snapshot ''input_required'') = None"
  by (rule poll_never_leaves, rule poll_within_steady) simp_all


lemma onSubmit_never_returns:
  assumes "post e send_url (a2aRequest (requestMessage tab d)) = Resolves t"
    and "\<And>k. poll_within e (poll_url (task_id t)) 0 k t = None"
  shows "onSubmit e tab d c = None"
  using assms(1) poll_never_leaves[OF assms(2)]
  by (simp add: onSubmit_def try_block_def Let_def)

text \<open>
  Against a server whose task stays \<^verbatim>\<open>running\<close>, the handler never returns, so the
  \<^verbatim>\<open>finally\<close> block that clears \<open>isGenerating\<close> is never reached.
\<close>
theorem onSubmit_running_forever_counterexample:
  "onSubmit (steady_env (snapshot ''running'')) Url example_data idle = None"
  by (rule onSubmit_never_returns[where t="snapshot ''running''"], simp, rule poll_within_steady) simp_all

lemma onSubmit_returns:
  assumes "onSubmit e tab d c = Some c'"
  shows "\<not> isGenerating c'"
  using assms
  by (auto simp: onSubmit_def finally_block_def split: option.splits prod.splits sum.splits)

lemma onSubmit_rejected:
  assumes "post e send_url (a2aRequest (requestMessage tab d)) = Rejects err"
  shows "\<exists>c'. onSubmit e tab d c = Some c'"
  using assms by (simp add: onSubmit_def try_block_def Let_def)

lemma onSubmit_leaves:
  assumes "post e send_url (a2aRequest (requestMessage tab d)) = Resolves t"
    and "poll_within e (poll_url (task_id t)) 0 k t = Some r"
  shows "\<exists>c'. onSubmit e tab d c = Some c'"
proof -
  let ?c4 = "start_request e tab d (begin_submit c)"
  from poll_within_poll[OF assms(2), of ?c4] obtain c5 where
    "poll e (task_id t) 0 ?c4 t = Some (r, c5)" by blast
  with assms(1) show ?thesis
    by (cases r) (simp_all add: onSubmit_def try_block_def Let_def split: prod.splits sum.splits)
qed



lemma post_scripted [simp]: "post (scripted_env t sc) url b = Resolves t"
  by (simp add: scripted_env_def)

lemma get_scripted [simp]:
  "get (scripted_env t sc) url n = (if n < length sc then Resolves (sc ! n) else Rejects connection_lost)"
  by (simp add: scripted_env_def)

subsection \<open>Requests\<close>

lemma sent_addLog [simp]: "sent (addLog e m c) = sent c"
  by (simp add: addLog_def)

lemma error_addLog [simp]: "error (addLog e m c) = error c"
  by (simp add: addLog_def)

lemma result_addLog [simp]: "result (addLog e m c) = result c"
  by (simp add: addLog_def)

lemma foldl_addLog:
  "sent (foldl (\<lambda>c' line. if P line then addLog e line c' else c') c ls) = sent c
   \<and> error (foldl (\<lambda>c' line. if P line then addLog e line c' else c') c ls) = error c
   \<and> result (foldl (\<lambda>c' line. if P line then addLog e line c' else c') c ls) = result c"
  by (induction ls arbitrary: c) simp_all

lemma log_lines_frame [simp]:
  "sent (log_lines e a c) = sent c" "error (log_lines e a c) = error c"
  "result (log_lines e a c) = result c"
  by (simp_all add: log_lines_def foldl_addLog)

lemma sent_after_poll [simp]: "sent (snd (after_poll e t c)) = sent c"
  by (simp add: after_poll_def Let_def)

lemma sent_catch_block [simp]: "sent (catch_block e err c) = sent c"
  by (simp add: catch_block_def Let_def)

lemma sent_finally_block [simp]: "sent (finally_block c) = sent c"
  by (simp add: finally_block_def)

text \<open>What \<open>onSubmit\<close> returns, in terms of the bounded loop.\<close>

lemma onSubmit_unfold:
  assumes "post e send_url (a2aRequest (requestMessage tab d)) = Resolves t"
  shows "onSubmit e tab d c =
    (case poll e (task_id t) 0
            (start_request e tab d (begin_submit c)) t of None \<Rightarrow> None
     | Some (Inl err, c5) \<Rightarrow> Some (finally_block (catch_block e err c5))
     | Some (Inr t', c5) \<Rightarrow>
         (case after_poll e t' c5 of (Inl err, c6) \<Rightarrow> Some (finally_block (catch_block e err c6))
            | (Inr u, c6) \<Rightarrow> Some (finally_block c6)))"
  using assms
  by (simp add: onSubmit_def try_block_def Let_def split: option.splits prod.splits sum.splits)


lemma start_request_frame [simp]:
  "sent (start_request e tab d c) = sent c @ [Post send_url (a2aRequest (requestMessage tab d))]"
  "error (start_request e tab d c) = error c"
  "result (start_request e tab d c) = result c"
  by (simp_all add: start_request_def send_def Let_def)



lemma onSubmit_at_once:
  assumes "post e send_url (a2aRequest (requestMessage tab d)) = Resolves t"
    and "status_state t = Some ''completed'' \<or> status_state t = Some ''failed''"
  shows "onSubmit e tab d c =
     (let c4 = start_request e tab d (begin_submit c)
      in case after_poll e t c4 of
           (Inl err, c6) \<Rightarrow> Some (finally_block (catch_block e err c6))
         | (Inr u, c6) \<Rightarrow> Some (finally_block c6))"
proof -
  have "poll e (task_id t) 0
          (start_request e tab d (begin_submit c)) t
        = Some (Inr t, start_request e tab d (begin_submit c))"
    using assms(2) by (subst poll.simps) auto
  then show ?thesis by (simp add: onSubmit_unfold[OF assms(1)] Let_def)
qed

subsection \<open>Failure display\<close>

lemma or_else_nonempty: "d \<noteq> [] \<Longrightarrow> or_else v d \<noteq> []"
  by (simp add: or_else_def split: option.splits)

lemma error_catch_block:
  "error (catch_block e err c) =
     Some (or_else (response_data_message err) (or_else (err_message err) ''Generation failed''))"
  by (simp add: catch_block_def Let_def)


text \<open>
  A failed snapshot with a diagnostic in its \<^verbatim>\<open>error\<close> field and no status message: the
  form shows \<^verbatim>\<open>Task failed\<close>, not the diagnostic.
\<close>
theorem onSubmit_failed_counterexample:
  "map_option error (onSubmit (steady_env failed_with_error) Url example_data idle)
     = Some (Some ''Task failed'')
   \<and> task_error failed_with_error = Some ''extractor unreachable''"
proof -
  have s: "status_state failed_with_error = Some ''failed''"
    by (simp add: failed_with_error_def status_state_def snapshot_def)
  have t: "status_text failed_with_error = None"
    by (simp add: failed_with_error_def status_text_def snapshot_def)
  have u: "task_error failed_with_error = Some ''extractor unreachable''"
    by (simp add: failed_with_error_def)
  show ?thesis
    by (simp add: onSubmit_at_once[where t=failed_with_error] s t u Let_def after_poll_def
      finally_block_def error_catch_block new_Error_def or_else_def)
qed

text \<open>
  Claim C7, as amended. For a task that ends in state \<^verbatim>\<open>failed\<close>, the form shows the text
  of the snapshot's status message, or \<^verbatim>\<open>Task failed\<close> when that text is missing or
  empty; it does not read the \<^verbatim>\<open>error\<close> field. Whatever is thrown, the error shown is
  built from message fields and fixed strings, never from the stack of the error.
\<close>
theorem onSubmit_shows_status_text:
  "(post e send_url (a2aRequest (requestMessage tab d)) = Resolves t0 \<longrightarrow>
     poll_within e (poll_url (task_id t0)) 0 k t0 = Some (Inr t) \<longrightarrow>
     status_state t = Some ''failed'' \<longrightarrow>
     (\<exists>c'. onSubmit e tab d c = Some c'
        \<and> error c' = Some (or_else (status_text t) ''Task failed'')))
   \<and> error (catch_block e err c) =
        Some (or_else (response_data_message err) (or_else (err_message err) ''Generation failed''))
   \<and> catch_block e (err\<lparr>stack := s\<rparr>) c = catch_block e err c"
proof (intro conjI impI)
  assume p: "post e send_url (a2aRequest (requestMessage tab d)) = Resolves t0"
    and k: "poll_within e (poll_url (task_id t0)) 0 k t0 = Some (Inr t)"
    and f: "status_state t = Some ''failed''"
  let ?c4 = "start_request e tab d (begin_submit c)"
  from poll_within_poll[OF k, of ?c4] obtain c5 where
    c5: "poll e (task_id t0) 0 ?c4 t0 = Some (Inr t, c5)" by blast
  have "or_else None (or_else (Some (or_else (status_text t) ''Task failed'')) ''Generation failed'')
        = or_else (status_text t) ''Task failed''"
    by (simp add: or_else_def split: option.splits)
  with c5 f show "\<exists>c'. onSubmit e tab d c = Some c'
        \<and> error c' = Some (or_else (status_text t) ''Task failed'')"
    by (simp add: onSubmit_unfold[OF p] after_poll_def finally_block_def error_catch_block
        new_Error_def)
next
  show "error (catch_block e err c) =
        Some (or_else (response_data_message err) (or_else (err_message err) ''Generation failed''))"
    by (rule error_catch_block)
next
  show "catch_block e (err\<lparr>stack := s\<rparr>) c = catch_block e err c"
    by (simp add: catch_block_def)
qed

text \<open>A task that fails with the message \<^verbatim>\<open>spec is invalid\<close>.\<close>
theorem onSubmit_shows_status_text_witness:
  "\<exists>c'. onSubmit (scripted_env (snapshot ''pending'') [snapshot ''running'', failed_with_message])
           Url example_data idle = Some c'
     \<and> error c' = Some ''spec is invalid''"
proof -
  let ?e = "scripted_env (snapshot ''pending'') [snapshot ''running'', failed_with_message]"
  have s: "status_state failed_with_message = Some ''failed''"
    by (simp add: failed_with_message_def status_state_def)
  have t: "status_text failed_with_message = Some ''spec is invalid''"
    by (simp add: failed_with_message_def status_text_def)
  have "poll_within ?e (poll_url (task_id (snapshot ''pending''))) 0 (Suc (Suc 0)) (snapshot ''pending'')
          = Some (Inr failed_with_message)"
    by (simp add: s)
  moreover have "post ?e send_url (a2aRequest (requestMessage Url example_data)) = Resolves (snapshot ''pending'')"
    by simp
  ultimately show ?thesis
    using onSubmit_shows_status_text[of ?e Url example_data "snapshot ''pending''" "Suc (Suc 0)"
        failed_with_message idle] s t
    by (simp add: or_else_def)
qed

subsection \<open>Result extraction\<close>




subsection \<open>Validation\<close>

lemma strip_prefix_Some: "strip_prefix p s = Some r \<longleftrightarrow> s = p @ r"
  by (induction p s rule: strip_prefix.induct) auto

lemma strip_prefix_None: "strip_prefix p s = None \<longleftrightarrow> (\<forall>r. s \<noteq> p @ r)"
  using strip_prefix_Some[of p s] by (cases "strip_prefix p s") auto

lemma colon_slashes_rest_iff:
  "colon_slashes_rest s \<longleftrightarrow> (\<exists>r. s = ''://'' @ r \<and> r \<noteq> [] \<and> \<not> line_terminator (hd r))"
  by (auto simp: colon_slashes_rest_def any_char_plus_def strip_prefix_Some
      split: option.splits list.splits)

lemma url_pattern_iff:
  "url_pattern s \<longleftrightarrow>
     (\<exists>r. (s = ''http://'' @ r \<or> s = ''https://'' @ r) \<and> r \<noteq> [] \<and> \<not> line_terminator (hd r))"
proof (cases "strip_prefix ''http'' s")
  case None
  then have "\<forall>r. s \<noteq> ''http'' @ r" by (simp add: strip_prefix_None)
  then have "\<forall>r. s \<noteq> ''http://'' @ r \<and> s \<noteq> ''https://'' @ r" by auto
  with None show ?thesis by (auto simp: url_pattern_def)
next
  case (Some u)
  then have s: "s = ''http'' @ u" by (simp add: strip_prefix_Some)
  show ?thesis
  proof (cases "strip_prefix ''s'' u")
    case None
    then have "\<forall>r. u \<noteq> ''s'' @ r" by (simp add: strip_prefix_None)
    with s Some None show ?thesis
      by (auto simp: url_pattern_def colon_slashes_rest_iff)
  next
    case (Some v)
    then have "u = ''s'' @ v" by (simp add: strip_prefix_Some)
    with s Some \<open>strip_prefix ''http'' s = Some u\<close> show ?thesis
      by (auto simp: url_pattern_def colon_slashes_rest_iff)
  qed
qed


lemma validate_apiUrl_None:
  "validate_apiUrl v = None \<longleftrightarrow>
     (\<exists>s r. v = Some s \<and> s \<noteq> [] \<and> (s = ''http://'' @ r \<or> s = ''https://'' @ r) \<and> r \<noteq> []
        \<and> \<not> line_terminator (hd r))"
proof (cases v)
  case None
  then show ?thesis by (simp add: validate_apiUrl_def required_rule_def truthy_def)
next
  case (Some s)
  then show ?thesis
    using url_pattern_iff[of s]
    by (auto simp: validate_apiUrl_def required_rule_def truthy_def or_else_def)
qed


text \<open>
  Claim C9. On the URL tab a request is sent only if \<open>apiUrl\<close> is not empty and matches
  \<^verbatim>\<open>^https?://.+\<close>, that is, it is \<^verbatim>\<open>http://\<close> or \<^verbatim>\<open>https://\<close> followed by at least one
  character that is no line terminator. Any other submission leaves the component as it
  was, sends nothing, and sets the validation message shown under the input.
\<close>
theorem handleSubmit_url_guard:
  "(handleSubmit e Url d c = Some (errs, c') \<longrightarrow> sent c' \<noteq> sent c \<longrightarrow>
      (\<exists>s r. apiUrl d = Some s \<and> s \<noteq> [] \<and> (s = ''http://'' @ r \<or> s = ''https://'' @ r)
          \<and> r \<noteq> [] \<and> \<not> line_terminator (hd r)))
   \<and> (\<not> (\<exists>s r. apiUrl d' = Some s \<and> s \<noteq> [] \<and> (s = ''http://'' @ r \<or> s = ''https://'' @ r)
          \<and> r \<noteq> [] \<and> \<not> line_terminator (hd r)) \<longrightarrow>
      (\<exists>m. handleSubmit e Url d' c =
              Some (\<lparr>apiUrl_error = Some m, openApiSpec_error = None\<rparr>, c)
         \<and> (m = ''API URL is required'' \<or> m = ''Please enter a valid URL'')))"
proof (intro conjI impI)
  assume h: "handleSubmit e Url d c = Some (errs, c')" and n: "sent c' \<noteq> sent c"
  have "validate_apiUrl (apiUrl d) = None"
  proof (rule ccontr)
    assume "validate_apiUrl (apiUrl d) \<noteq> None"
    with h have "c' = c" by (auto simp: handleSubmit_def validate_def Let_def)
    with n show False by simp
  qed
  then show "\<exists>s r. apiUrl d = Some s \<and> s \<noteq> [] \<and> (s = ''http://'' @ r \<or> s = ''https://'' @ r)
          \<and> r \<noteq> [] \<and> \<not> line_terminator (hd r)"
    by (simp only: validate_apiUrl_None)
next
  assume "\<not> (\<exists>s r. apiUrl d' = Some s \<and> s \<noteq> [] \<and> (s = ''http://'' @ r \<or> s = ''https://'' @ r)
          \<and> r \<noteq> [] \<and> \<not> line_terminator (hd r))"
  then have "validate_apiUrl (apiUrl d') \<noteq> None"
    by (simp only: validate_apiUrl_None not_False_eq_True)
  then obtain m where m: "validate_apiUrl (apiUrl d') = Some m" by auto
  then have "m = ''API URL is required'' \<or> m = ''Please enter a valid URL''"
    by (auto simp: validate_apiUrl_def required_rule_def split: option.splits if_splits)
  with m show "\<exists>m. handleSubmit e Url d' c =
              Some (\<lparr>apiUrl_error = Some m, openApiSpec_error = None\<rparr>, c)
         \<and> (m = ''API URL is required'' \<or> m = ''Please enter a valid URL'')"
    by (simp add: handleSubmit_def validate_def Let_def)
qed

text \<open>An accepted URL and a rejected one.\<close>
theorem handleSubmit_url_guard_witness:
  "(\<exists>errs c'. handleSubmit (steady_env (snapshot ''completed'')) Url example_data idle = Some (errs, c')
       \<and> sent c' \<noteq> sent idle)
   \<and> (\<exists>s r. apiUrl example_data = Some s \<and> s \<noteq> [] \<and> (s = ''http://'' @ r \<or> s = ''https://'' @ r)
          \<and> r \<noteq> [] \<and> \<not> line_terminator (hd r))
   \<and> (\<exists>m. handleSubmit (steady_env (snapshot ''completed'')) Url
              \<lparr>apiUrl = Some ''ftp://api.example.com'', openApiSpec = None\<rparr> idle
            = Some (\<lparr>apiUrl_error = Some m, openApiSpec_error = None\<rparr>, idle)
          \<and> (m = ''API URL is required'' \<or> m = ''Please enter a valid URL''))"
proof -
  let ?e = "steady_env (snapshot ''completed'')"
  let ?bad = "\<lparr>apiUrl = Some ''ftp://api.example.com'', openApiSpec = None\<rparr>"
  have v: "validate_apiUrl (apiUrl example_data) = None"
    by (simp add: example_data_def validate_apiUrl_def required_rule_def truthy_def or_else_def
        url_pattern_def colon_slashes_rest_def any_char_plus_def line_terminator_def)
  have "\<exists>c'. onSubmit ?e Url example_data idle = Some c' \<and> sent c' \<noteq> sent idle"
    by (simp add: onSubmit_at_once[where t="snapshot ''completed''"] Let_def after_poll_def idle_def)
  then obtain c' where c': "onSubmit ?e Url example_data idle = Some c'" "sent c' \<noteq> sent idle"
    by blast
  with v have h: "handleSubmit ?e Url example_data idle
      = Some (\<lparr>apiUrl_error = None, openApiSpec_error = None\<rparr>, c')"
    by (simp add: handleSubmit_def validate_def Let_def)
  have bad: "\<not> (\<exists>s r. apiUrl ?bad = Some s \<and> s \<noteq> [] \<and> (s = ''http://'' @ r \<or> s = ''https://'' @ r)
          \<and> r \<noteq> [] \<and> \<not> line_terminator (hd r))"
    by auto
  from handleSubmit_url_guard[of ?e example_data idle "\<lparr>apiUrl_error = None, openApiSpec_error = None\<rparr>" c' ?bad]
    h c'(2) bad
  show ?thesis by blast
qed

subsection \<open>The handler between polls\<close>

lemma isGenerating_addLog [simp]: "isGenerating (addLog e m c) = isGenerating c"
  by (simp add: addLog_def)

lemma send_frame [simp]:
  "sent (send r c) = sent c @ [r]" "isGenerating (send r c) = isGenerating c"
  "logs (send r c) = logs c"
  by (simp_all add: send_def)

lemma isGenerating_start_request [simp]:
  "isGenerating (start_request e tab d c) = isGenerating c"
  by (simp add: start_request_def Let_def)

lemma poll_upto_Some:
  "poll_upto e tid n k c t = (Some r, c') \<Longrightarrow> poll e tid n c t = Some (r, c')"
proof (induction k arbitrary: n c t)
  case 0
  then show ?case by (subst poll.simps) (auto split: if_splits)
next
  case (Suc k)
  show ?case
  proof (cases "status_state t \<noteq> Some ''completed'' \<and> status_state t \<noteq> Some ''failed''")
    case False
    with Suc.prems show ?thesis by (subst poll.simps) (auto split: if_splits)
  next
    case True
    show ?thesis
    proof (cases "get e (poll_url tid) n")
      case (Rejects err)
      with True Suc.prems show ?thesis by (subst poll.simps) (auto simp: Let_def)
    next
      case (Resolves t')
      let ?c2 = "if truthy (status_text t')
                 then addLog e (or_else (status_text t') [])
                        (send (Get (poll_url tid)) (addLog e ''Processing request...'' c))
                 else send (Get (poll_url tid)) (addLog e ''Processing request...'' c)"
      from Resolves True Suc.prems have "poll_upto e tid (Suc n) k ?c2 t' = (Some r, c')"
        by (simp add: Let_def)
      from Suc.IH[OF this] Resolves True show ?thesis
        by (subst poll.simps) (simp add: Let_def)
    qed
  qed
qed

lemma poll_upto_within:
  "fst (poll_upto e tid n k c t) = poll_within e (poll_url tid) n k t"
  by (induction k arbitrary: n c t) (auto simp: Let_def split: reply.splits)

lemma poll_Some_upto:
  assumes "poll e tid n c t = Some (r, c')"
  shows "\<exists>k. poll_upto e tid n k c t = (Some r, c')"
proof -
  from poll_poll_within[OF assms] obtain k where
    "poll_within e (poll_url tid) n k t = Some r" by auto
  then have "fst (poll_upto e tid n k c t) = Some r" by (simp add: poll_upto_within)
  then obtain c'' where u: "poll_upto e tid n k c t = (Some r, c'')"
    by (cases "poll_upto e tid n k c t") auto
  from poll_upto_Some[OF u] assms have "c'' = c'" by simp
  with u show ?thesis by blast
qed

lemma poll_upto_sent:
  "\<exists>j\<le>k. sent (snd (poll_upto e tid n k c t)) = sent c @ replicate j (Get (poll_url tid))"
proof (induction k arbitrary: n c t)
  case 0
  show ?case by simp
next
  case (Suc k)
  show ?case
  proof (cases "status_state t \<noteq> Some ''completed'' \<and> status_state t \<noteq> Some ''failed''")
    case False
    then have "sent (snd (poll_upto e tid n (Suc k) c t)) = sent c @ replicate 0 (Get (poll_url tid))"
      by auto
    then show ?thesis by blast
  next
    case True
    show ?thesis
    proof (cases "get e (poll_url tid) n")
      case (Rejects err)
      with True have "sent (snd (poll_upto e tid n (Suc k) c t))
          = sent c @ replicate (Suc 0) (Get (poll_url tid))"
        by (simp add: Let_def)
      moreover have "Suc 0 \<le> Suc k" by simp
      ultimately show ?thesis by blast
    next
      case (Resolves t')
      let ?c2 = "if truthy (status_text t')
                 then addLog e (or_else (status_text t') [])
                        (send (Get (poll_url tid)) (addLog e ''Processing request...'' c))
                 else send (Get (poll_url tid)) (addLog e ''Processing request...'' c)"
      from Suc.IH[of "Suc n" ?c2 t'] obtain j where
        j: "j \<le> k" "sent (snd (poll_upto e tid (Suc n) k ?c2 t')) = sent ?c2 @ replicate j (Get (poll_url tid))"
        by blast
      have "sent ?c2 = sent c @ [Get (poll_url tid)]" by simp
      with j Resolves True have "sent (snd (poll_upto e tid n (Suc k) c t))
          = sent c @ replicate (Suc j) (Get (poll_url tid))"
        by (simp add: Let_def replicate_append_same)
      with j(1) show ?thesis by (metis Suc_le_mono)
    qed
  qed
qed

lemma onSubmit_eq_upto:
  assumes "fst (try_upto k e tab d (begin_submit c)) \<noteq> None"
  shows "onSubmit e tab d c = Some (onSubmit_upto k e tab d c)"
proof (cases "post e send_url (a2aRequest (requestMessage tab d))")
  case (Rejects err)
  then show ?thesis
    by (simp add: onSubmit_def onSubmit_upto_def try_block_def try_upto_def Let_def)
next
  case (Resolves t)
  let ?c4 = "start_request e tab d (begin_submit c)"
  obtain r c5 where u: "poll_upto e (task_id t) 0 k ?c4 t = (r, c5)"
    by (cases "poll_upto e (task_id t) 0 k ?c4 t")
  with assms Resolves obtain r' where r': "r = Some r'"
    by (cases r) (auto simp: try_upto_def Let_def)
  from poll_upto_Some[OF u[unfolded r']] have "poll e (task_id t) 0 ?c4 t = Some (r', c5)" .
  with u r' Resolves show ?thesis
    by (cases r'; cases "after_poll e (projr r') c5")
       (auto simp: onSubmit_def onSubmit_upto_def try_block_def try_upto_def Let_def
          split: sum.splits prod.splits)
qed

lemma onSubmit_upto_final:
  assumes "onSubmit e tab d c = Some c'"
  shows "\<exists>k. onSubmit_upto k e tab d c = c'"
proof (cases "post e send_url (a2aRequest (requestMessage tab d))")
  case (Rejects err)
  then have "fst (try_upto 0 e tab d (begin_submit c)) \<noteq> None"
    by (simp add: try_upto_def Let_def)
  from onSubmit_eq_upto[OF this] assms show ?thesis by auto
next
  case (Resolves t)
  let ?c4 = "start_request e tab d (begin_submit c)"
  from assms obtain r c5 where "poll e (task_id t) 0 ?c4 t = Some (r, c5)"
    by (auto simp: onSubmit_unfold[OF Resolves] split: option.splits)
  from poll_Some_upto[OF this] obtain k where "poll_upto e (task_id t) 0 k ?c4 t = (Some r, c5)" ..
  with Resolves have "fst (try_upto k e tab d (begin_submit c)) \<noteq> None"
    by (cases r) (simp_all add: try_upto_def Let_def)
  from onSubmit_eq_upto[OF this] assms show ?thesis by auto
qed


lemma onSubmit_upto_sent:
  "\<exists>j\<le>k. sent (onSubmit_upto k e tab d c) =
      sent c @ Post send_url (a2aRequest (requestMessage tab d)) #
        (case post e send_url (a2aRequest (requestMessage tab d)) of
           Rejects err \<Rightarrow> []
         | Resolves t \<Rightarrow> replicate j (Get (poll_url (task_id t))))"
proof (cases "post e send_url (a2aRequest (requestMessage tab d))")
  case (Rejects err)
  then have "sent (onSubmit_upto k e tab d c) =
      sent c @ Post send_url (a2aRequest (requestMessage tab d)) # []"
    by (simp add: onSubmit_upto_def try_upto_def Let_def)
  with Rejects show ?thesis by auto
next
  case (Resolves t)
  let ?c4 = "start_request e tab d (begin_submit c)"
  from poll_upto_sent[of k e "task_id t" 0 ?c4 t] obtain j where
    j: "j \<le> k" "sent (snd (poll_upto e (task_id t) 0 k ?c4 t))
          = sent ?c4 @ replicate j (Get (poll_url (task_id t)))"
    by blast
  obtain r c5 where u: "poll_upto e (task_id t) 0 k ?c4 t = (r, c5)"
    by (cases "poll_upto e (task_id t) 0 k ?c4 t")
  have "sent (onSubmit_upto k e tab d c) = sent c5"
  proof (cases r)
    case None
    with u Resolves show ?thesis by (simp add: onSubmit_upto_def try_upto_def Let_def)
  next
    case (Some r')
    with u Resolves show ?thesis
      by (cases r'; cases "fst (after_poll e (projr r') c5)")
         (simp_all add: onSubmit_upto_def try_upto_def Let_def)
  qed
  with j u Resolves have "sent (onSubmit_upto k e tab d c) =
      sent c @ Post send_url (a2aRequest (requestMessage tab d)) #
        replicate j (Get (poll_url (task_id t)))"
    by simp
  with j(1) Resolves show ?thesis by auto
qed

lemma poll_upto_unsettled:
  assumes "status_state t \<noteq> Some ''completed''" "status_state t \<noteq> Some ''failed''"
    and "\<forall>i<k. \<exists>s. get e (poll_url tid) (n + i) = Resolves s
            \<and> status_state s \<noteq> Some ''completed'' \<and> status_state s \<noteq> Some ''failed''"
  shows "fst (poll_upto e tid n k c t) = None
     \<and> isGenerating (snd (poll_upto e tid n k c t)) = isGenerating c
     \<and> sent (snd (poll_upto e tid n k c t)) = sent c @ replicate k (Get (poll_url tid))"
  using assms
proof (induction k arbitrary: n c t)
  case 0
  then show ?case by simp
next
  case (Suc k)
  from Suc.prems(3) obtain s where s: "get e (poll_url tid) n = Resolves s"
    "status_state s \<noteq> Some ''completed''" "status_state s \<noteq> Some ''failed''"
    by force
  let ?c2 = "if truthy (status_text s)
             then addLog e (or_else (status_text s) [])
                    (send (Get (poll_url tid)) (addLog e ''Processing request...'' c))
             else send (Get (poll_url tid)) (addLog e ''Processing request...'' c)"
  have "\<forall>i<k. \<exists>s. get e (poll_url tid) (Suc n + i) = Resolves s
            \<and> status_state s \<noteq> Some ''completed'' \<and> status_state s \<noteq> Some ''failed''"
  proof (intro allI impI)
    fix i assume "i < k"
    then have "Suc i < Suc k" by simp
    with Suc.prems(3) have "\<exists>s. get e (poll_url tid) (n + Suc i) = Resolves s
            \<and> status_state s \<noteq> Some ''completed'' \<and> status_state s \<noteq> Some ''failed''"
      by blast
    then show "\<exists>s. get e (poll_url tid) (Suc n + i) = Resolves s
            \<and> status_state s \<noteq> Some ''completed'' \<and> status_state s \<noteq> Some ''failed''"
      by simp
  qed
  from Suc.IH[OF s(2,3) this, of ?c2] have
    "fst (poll_upto e tid (Suc n) k ?c2 s) = None"
    "isGenerating (snd (poll_upto e tid (Suc n) k ?c2 s)) = isGenerating ?c2"
    "sent (snd (poll_upto e tid (Suc n) k ?c2 s)) = sent ?c2 @ replicate k (Get (poll_url tid))"
    by simp_all
  moreover have "isGenerating ?c2 = isGenerating c" "sent ?c2 = sent c @ [Get (poll_url tid)]"
    by simp_all
  moreover have "poll_upto e tid n (Suc k) c t = poll_upto e tid (Suc n) k ?c2 s"
    using Suc.prems(1,2) s(1) by (simp add: Let_def)
  ultimately show ?case by (simp add: replicate_append_same)
qed

lemma onSubmit_upto_unsettled:
  assumes "post e send_url (a2aRequest (requestMessage tab d)) = Resolves t"
    and "status_state t \<noteq> Some ''completed''" "status_state t \<noteq> Some ''failed''"
    and "\<forall>i<k. \<exists>s. get e (poll_url (task_id t)) i = Resolves s
            \<and> status_state s \<noteq> Some ''completed'' \<and> status_state s \<noteq> Some ''failed''"
  shows "isGenerating (onSubmit_upto k e tab d c)
     \<and> sent (onSubmit_upto k e tab d c) =
         sent c @ Post send_url (a2aRequest (requestMessage tab d)) #
           replicate k (Get (poll_url (task_id t)))"
proof -
  let ?c4 = "start_request e tab d (begin_submit c)"
  from assms(4) have "\<forall>i<k. \<exists>s. get e (poll_url (task_id t)) (0 + i) = Resolves s
            \<and> status_state s \<noteq> Some ''completed'' \<and> status_state s \<noteq> Some ''failed''"
    by simp
  from poll_upto_unsettled[OF assms(2,3) this, of ?c4] obtain c5 where
    "poll_upto e (task_id t) 0 k ?c4 t = (None, c5)" "isGenerating c5"
    "sent c5 = sent ?c4 @ replicate k (Get (poll_url (task_id t)))"
    by (cases "poll_upto e (task_id t) 0 k ?c4 t") auto
  with assms(1) show ?thesis
    by (simp add: onSubmit_upto_def try_upto_def Let_def)
qed

subsection \<open>The log of the polling form\<close>

lemma logs_addLog [simp]: "logs (addLog e m c) = logs c @ [now e (length (logs c)) @ '': '' @ m]"
  by (simp add: addLog_def)




text \<open>
  Claim C6, as amended. For every task creation the form sends one POST to
  \<^verbatim>\<open>http://127.0.0.1:10000/tasks/send\<close> with body
  \<^verbatim>\<open>{message: {role: "user", content: <instruction>}}\<close>. The polling form takes \<^verbatim>\<open>id\<close>
  from the reply and uses it for every poll: at every moment of the submission, whether
  it ever ends or not, the requests sent so far are that POST followed by GETs of
  \<^verbatim>\<open>/root-agent/tasks/<id>\<close>, and by nothing when the POST was rejected; the state
  in which a submission ends is one of these moments. The query form sends the POST and
  nothing else.
\<close>
theorem onSubmit_requests:
  "(\<exists>j\<le>k. sent (onSubmit_upto k e tab d c) =
       sent c @
       Post ''http://127.0.0.1:10000/tasks/send''
            \<lparr>message = \<lparr>role = ''user'', content = requestMessage tab d\<rparr>\<rparr>
       # (case post e send_url (a2aRequest (requestMessage tab d)) of
            Rejects err \<Rightarrow> []
          | Resolves t \<Rightarrow> replicate j (Get (''/root-agent/tasks/'' @ template (task_id t)))))
   \<and> (onSubmit e tab d c = Some c' \<longrightarrow> (\<exists>n. onSubmit_upto n e tab d c = c'))
   \<and> sent (onSubmit_query e q c) = sent c @
        [Post ''http://127.0.0.1:10000/tasks/send'' \<lparr>message = \<lparr>role = ''user'', content = query q\<rparr>\<rparr>]"
proof (intro conjI impI)
  from onSubmit_upto_sent[of k e tab d c]
  show "\<exists>j\<le>k. sent (onSubmit_upto k e tab d c) =
       sent c @
       Post ''http://127.0.0.1:10000/tasks/send''
            \<lparr>message = \<lparr>role = ''user'', content = requestMessage tab d\<rparr>\<rparr>
       # (case post e send_url (a2aRequest (requestMessage tab d)) of
            Rejects err \<Rightarrow> []
          | Resolves t \<Rightarrow> replicate j (Get (''/root-agent/tasks/'' @ template (task_id t))))"
    unfolding send_url_def a2aRequest_def poll_url_def .
next
  assume "onSubmit e tab d c = Some c'"
  then show "\<exists>n. onSubmit_upto n e tab d c = c'" by (rule onSubmit_upto_final)
next
  show "sent (onSubmit_query e q c) = sent c @
        [Post ''http://127.0.0.1:10000/tasks/send'' \<lparr>message = \<lparr>role = ''user'', content = query q\<rparr>\<rparr>]"
    by (simp add: onSubmit_query_def Let_def send_url_def a2aRequest_def
        split: prod.splits reply.splits)
qed

lemma snapshot_fields [simp]:
  "task_id (snapshot s) = Some ''t1''" "status_text (snapshot s) = None"
  "first_artifact_text (snapshot s) = None"
  by (simp_all add: snapshot_def status_text_def first_artifact_text_def first_def)

lemma try_upto_scripted_done:
  "fst (try_upto (Suc 0) (scripted_env (snapshot ''pending'') [snapshot ''completed''])
          Url example_data (begin_submit idle)) \<noteq> None"
  by (simp add: try_upto_def Let_def)

text \<open>
  A task that is pending in the reply to the POST and completed at the first poll: the
  POST went to \<^verbatim>\<open>/tasks/send\<close>, not to \<^verbatim>\<open>/tasks\<close>.
\<close>
theorem onSubmit_posts_to_tasks_send_counterexample:
  "map_option sent
     (onSubmit (scripted_env (snapshot ''pending'') [snapshot ''completed'']) Url example_data idle)
     = Some [Post send_url (a2aRequest ''Generate an MCP server for the API at https://api.example.com''),
             Get ''/root-agent/tasks/t1'']
   \<and> send_url \<noteq> tasks_endpoint"
proof -
  let ?e = "scripted_env (snapshot ''pending'') [snapshot ''completed'']"
  have "onSubmit ?e Url example_data idle = Some (onSubmit_upto (Suc 0) ?e Url example_data idle)"
    by (rule onSubmit_eq_upto[OF try_upto_scripted_done])
  moreover have "sent (onSubmit_upto (Suc 0) ?e Url example_data idle)
     = [Post send_url (a2aRequest ''Generate an MCP server for the API at https://api.example.com''),
        Get ''/root-agent/tasks/t1'']"
    by (simp add: onSubmit_upto_def try_upto_def Let_def after_poll_def log_lines_def or_else_def
        truthy_def idle_def requestMessage_def example_data_def template_def poll_url_def)
  moreover have "send_url \<noteq> tasks_endpoint"
    by (simp add: send_url_def tasks_endpoint_def)
  ultimately show ?thesis by simp
qed

text \<open>The requests of a submission with two polls.\<close>
theorem onSubmit_requests_witness:
  "(\<exists>j\<le>Suc (Suc 0).
      sent (onSubmit_upto (Suc (Suc 0))
              (scripted_env (snapshot ''pending'') [snapshot ''running'', snapshot ''completed''])
              Url example_data idle)
      = Post ''http://127.0.0.1:10000/tasks/send''
             \<lparr>message = \<lparr>role = ''user'',
                content = ''Generate an MCP server for the API at https://api.example.com''\<rparr>\<rparr>
        # replicate j (Get ''/root-agent/tasks/t1''))
   \<and> (\<exists>c' n. onSubmit (scripted_env (snapshot ''pending'') [snapshot ''running'', snapshot ''completed''])
                 Url example_data idle = Some c'
          \<and> onSubmit_upto n (scripted_env (snapshot ''pending'') [snapshot ''running'', snapshot ''completed''])
                 Url example_data idle = c')"
proof -
  let ?e = "scripted_env (snapshot ''pending'') [snapshot ''running'', snapshot ''completed'']"
  have "poll_within ?e (poll_url (task_id (snapshot ''pending''))) 0 (Suc (Suc 0)) (snapshot ''pending'')
          = Some (Inr (snapshot ''completed''))"
    by simp
  from onSubmit_leaves[OF _ this, of Url example_data idle] obtain c' where
    c': "onSubmit ?e Url example_data idle = Some c'" by auto
  from onSubmit_requests[where k="Suc (Suc 0)" and e="?e" and tab=Url and d=example_data and c=idle
      and c'=c'] c'
  show ?thesis
    by (auto simp: idle_def requestMessage_def example_data_def template_def snapshot_def)
qed

text \<open>
  Claim C10, as amended. Every invocation of the submit handler that ends, ends with
  \<open>isGenerating\<close> false. The polling handler ends whenever the POST throws, or a poll
  throws, or some snapshot reports \<^verbatim>\<open>completed\<close> or \<^verbatim>\<open>failed\<close>; the handler of the query
  form always ends. As long as every snapshot reports a state other than \<^verbatim>\<open>completed\<close>,
  \<^verbatim>\<open>failed\<close> and \<^verbatim>\<open>input_required\<close> and no request throws, the polling handler has not
  ended: when \<open>n\<close> polls have been answered it has sent \<open>n\<close> polls and \<open>isGenerating\<close> is
  still true.
\<close>
theorem onSubmit_resets_isGenerating:
  "((\<exists>err. post e send_url (a2aRequest (requestMessage tab d)) = Rejects err) \<or>
    (\<exists>t k r. post e send_url (a2aRequest (requestMessage tab d)) = Resolves t
        \<and> poll_within e (poll_url (task_id t)) 0 k t = Some r)
    \<longrightarrow> (\<exists>c'. onSubmit e tab d c = Some c' \<and> \<not> isGenerating c'))
   \<and> (\<forall>c'. onSubmit e tab d c = Some c' \<longrightarrow> \<not> isGenerating c')
   \<and> \<not> isGenerating (onSubmit_query e q c)
   \<and> (post e send_url (a2aRequest (requestMessage tab d)) = Resolves s0 \<longrightarrow>
        status_state s0 \<notin> {Some ''completed'', Some ''failed'', Some ''input_required''} \<longrightarrow>
        (\<forall>i<n. \<exists>s. get e (poll_url (task_id s0)) i = Resolves s
            \<and> status_state s \<notin> {Some ''completed'', Some ''failed'', Some ''input_required''}) \<longrightarrow>
        isGenerating (onSubmit_upto n e tab d c)
        \<and> sent (onSubmit_upto n e tab d c) =
            sent c @ Post send_url (a2aRequest (requestMessage tab d)) #
              replicate n (Get (poll_url (task_id s0))))"
proof (intro conjI impI allI)
  assume "(\<exists>err. post e send_url (a2aRequest (requestMessage tab d)) = Rejects err) \<or>
    (\<exists>t k r. post e send_url (a2aRequest (requestMessage tab d)) = Resolves t
        \<and> poll_within e (poll_url (task_id t)) 0 k t = Some r)"
  then obtain c' where "onSubmit e tab d c = Some c'"
    using onSubmit_rejected onSubmit_leaves by blast
  with onSubmit_returns show "\<exists>c'. onSubmit e tab d c = Some c' \<and> \<not> isGenerating c'" by blast
next
  fix c' assume "onSubmit e tab d c = Some c'"
  then show "\<not> isGenerating c'" by (rule onSubmit_returns)
next
  show "\<not> isGenerating (onSubmit_query e q c)"
    by (simp add: onSubmit_query_def Let_def split: prod.splits)
next
  assume p: "post e send_url (a2aRequest (requestMessage tab d)) = Resolves s0"
    and s0: "status_state s0 \<notin> {Some ''completed'', Some ''failed'', Some ''input_required''}"
    and a: "\<forall>i<n. \<exists>s. get e (poll_url (task_id s0)) i = Resolves s
            \<and> status_state s \<notin> {Some ''completed'', Some ''failed'', Some ''input_required''}"
  from s0 have s0': "status_state s0 \<noteq> Some ''completed''" "status_state s0 \<noteq> Some ''failed''"
    by simp_all
  from a have a': "\<forall>i<n. \<exists>s. get e (poll_url (task_id s0)) i = Resolves s
            \<and> status_state s \<noteq> Some ''completed'' \<and> status_state s \<noteq> Some ''failed''"
    by fastforce
  from onSubmit_upto_unsettled[OF p s0' a', where c=c]
  show "isGenerating (onSubmit_upto n e tab d c)"
    and "sent (onSubmit_upto n e tab d c) =
            sent c @ Post send_url (a2aRequest (requestMessage tab d)) #
              replicate n (Get (poll_url (task_id s0)))"
    by simp_all
qed

text \<open>
  A task that is pending, then running, then completed: the handler ends after the
  second poll, and the button is still disabled after the first.
\<close>
theorem onSubmit_resets_isGenerating_witness:
  "(\<exists>c'. onSubmit (scripted_env (snapshot ''pending'') [snapshot ''running'', snapshot ''completed''])
           Url example_data idle = Some c' \<and> \<not> isGenerating c')
   \<and> isGenerating (onSubmit_upto (Suc 0)
         (scripted_env (snapshot ''pending'') [snapshot ''running'', snapshot ''completed''])
         Url example_data idle)"
proof -
  let ?e = "scripted_env (snapshot ''pending'') [snapshot ''running'', snapshot ''completed'']"
  have k: "poll_within ?e (poll_url (task_id (snapshot ''pending''))) 0 (Suc (Suc 0)) (snapshot ''pending'')
          = Some (Inr (snapshot ''completed''))"
    by simp
  have p: "post ?e send_url (a2aRequest (requestMessage Url example_data)) = Resolves (snapshot ''pending'')"
    by simp
  have s: "status_state (snapshot ''pending'')
             \<notin> {Some ''completed'', Some ''failed'', Some ''input_required''}"
    by simp
  have a: "\<forall>i<Suc 0. \<exists>s. get ?e (poll_url (task_id (snapshot ''pending''))) i = Resolves s
            \<and> status_state s \<notin> {Some ''completed'', Some ''failed'', Some ''input_required''}"
    by simp
  from onSubmit_resets_isGenerating[where e="?e" and tab=Url and d=example_data and c=idle
      and ?s0.0="snapshot ''pending''" and n="Suc 0"]
    k p s a
  show ?thesis by blast
qed




section \<open>Properties of the orchestration core\<close>

lemmas store_defs = transition_def fail_def with_task_def enter_stage_def appendMessage_def
  appendArtifact_def

lemma step_total: "\<exists>w'. step p clock ev w = Inr w'"
  by (cases ev; cases "t_state (task w)")
     (auto simp: store_defs Let_def split: agent_result.splits error_class.splits)

lemma step_terminal: "terminal (t_state (task w)) \<Longrightarrow> step p clock ev w = Inr w"
  by (cases ev) (auto simp: terminal_def)

lemma step_edge:
  "step p clock ev w = Inr w' \<Longrightarrow>
     t_state (task w') = t_state (task w) \<or> (t_state (task w), t_state (task w')) \<in> edges"
  by (cases ev; cases "t_state (task w)")
     (auto simp: store_defs edges_def Let_def split: agent_result.splits error_class.splits if_splits)

lemma step_grows:
  "step p clock ev w = Inr w' \<Longrightarrow>
     prefix (t_history (task w)) (t_history (task w'))
   \<and> prefix (t_artifacts (task w)) (t_artifacts (task w'))"
  by (cases ev; cases "t_state (task w)")
     (auto simp: store_defs Let_def split: agent_result.splits error_class.splits if_splits)

lemma run_total: "\<exists>w'. run p evs w = Inr w'"
proof (induction evs arbitrary: w)
  case Nil
  show ?case by simp
next
  case (Cons tev evs)
  obtain clock ev where tev: "tev = (clock, ev)" by (cases tev)
  from step_total obtain w1 where "step p clock ev w = Inr w1" by blast
  with Cons.IH[of w1] tev show ?case by simp
qed

lemma run_terminal: "terminal (t_state (task w)) \<Longrightarrow> run p evs w = Inr w"
  by (induction evs) (auto simp: step_terminal)

lemma run_grows:
  "run p evs w = Inr w' \<Longrightarrow>
     prefix (t_history (task w)) (t_history (task w'))
   \<and> prefix (t_artifacts (task w)) (t_artifacts (task w'))"
proof (induction evs arbitrary: w)
  case Nil
  then show ?case by simp
next
  case (Cons tev evs)
  obtain clock ev where tev: "tev = (clock, ev)" by (cases tev)
  from step_total obtain w1 where w1: "step p clock ev w = Inr w1" by blast
  with Cons.prems tev have "run p evs w1 = Inr w'" by simp
  from Cons.IH[OF this] step_grows[OF w1] show ?case
    by (meson prefix_order.trans)
qed


lemma trace_hd: "\<exists>rest. trace p evs w = w # rest"
  by (cases evs) auto

lemma trace_length: "length (trace p evs w) = Suc (length evs)"
proof (induction evs arbitrary: w)
  case Nil
  show ?case by simp
next
  case (Cons tev evs)
  obtain clock ev where tev: "tev = (clock, ev)" by (cases tev)
  from step_total obtain w1 where "step p clock ev w = Inr w1" by blast
  with Cons.IH[of w1] tev show ?case by simp
qed

lemma trace_successively:
  assumes "\<And>w clock ev w'. step p clock ev w = Inr w' \<Longrightarrow> R w w'"
  shows "successively R (trace p evs w)"
proof (induction evs arbitrary: w)
  case Nil
  show ?case by simp
next
  case (Cons tev evs)
  obtain clock ev where tev: "tev = (clock, ev)" by (cases tev)
  from step_total obtain w1 where w1: "step p clock ev w = Inr w1" by blast
  from trace_hd obtain rest where rest: "trace p evs w1 = w1 # rest" by blast
  from Cons.IH[of w1] rest have "successively R (w1 # rest)" by simp
  with assms[OF w1] have "successively R (w # w1 # rest)" by simp
  with tev w1 rest show ?case by simp
qed


text \<open>
  Claim C3. Over any sequence of events, the state of a task changes only along the
  edges pending to running, running to input-required, input-required to running,
  running to completed, running to failed, and the failure or cancellation of a pending
  or input-required task; the orchestrator never asks the store for another edge, so no
  event is refused; and once the task is completed or failed nothing changes any more.
\<close>
theorem states_follow_edges:
  "length (trace p evs w) = Suc (length evs)
   \<and> successively
       (\<lambda>a b. (t_state (task b) = t_state (task a) \<or>
                (t_state (task a), t_state (task b)) \<in>
                  {(Pending, Running), (Running, Input_required), (Input_required, Running),
                   (Running, Completed), (Running, Failed), (Pending, Failed),
                   (Input_required, Failed)})
             \<and> (t_state (task a) = Completed \<or> t_state (task a) = Failed \<longrightarrow> b = a))
       (trace p evs w)"
proof (rule conjI)
  show "length (trace p evs w) = Suc (length evs)" by (rule trace_length)
next
  show "successively
       (\<lambda>a b. (t_state (task b) = t_state (task a) \<or>
                (t_state (task a), t_state (task b)) \<in>
                  {(Pending, Running), (Running, Input_required), (Input_required, Running),
                   (Running, Completed), (Running, Failed), (Pending, Failed),
                   (Input_required, Failed)})
             \<and> (t_state (task a) = Completed \<or> t_state (task a) = Failed \<longrightarrow> b = a))
       (trace p evs w)"
  proof (rule trace_successively)
    fix w clock ev w'
    assume st: "step p clock ev w = Inr w'"
    from step_edge[OF st] have "t_state (task w') = t_state (task w) \<or>
                (t_state (task w), t_state (task w')) \<in>
                  {(Pending, Running), (Running, Input_required), (Input_required, Running),
                   (Running, Completed), (Running, Failed), (Pending, Failed),
                   (Input_required, Failed)}"
      by (simp add: edges_def)
    moreover have "t_state (task w) = Completed \<or> t_state (task w) = Failed \<longrightarrow> w' = w"
      using step_terminal[of w p clock ev] st by (auto simp: terminal_def)
    ultimately show "(t_state (task w') = t_state (task w) \<or>
                (t_state (task w), t_state (task w')) \<in>
                  {(Pending, Running), (Running, Input_required), (Input_required, Running),
                   (Running, Completed), (Running, Failed), (Pending, Failed),
                   (Input_required, Failed)})
             \<and> (t_state (task w) = Completed \<or> t_state (task w) = Failed \<longrightarrow> w' = w)"
      by blast
  qed
qed


text \<open>
  Claim C8. Between any two observations of a task, the artifacts and the history only
  grow (the earlier sequence is a prefix of the later one, so the lengths never
  decrease), and a task that is completed or failed is the same at every later
  observation.
\<close>
theorem task_only_grows:
  "\<exists>w'. run p evs w = Inr w'
     \<and> length (t_artifacts (task w)) \<le> length (t_artifacts (task w'))
     \<and> length (t_history (task w)) \<le> length (t_history (task w'))
     \<and> prefix (t_artifacts (task w)) (t_artifacts (task w'))
     \<and> prefix (t_history (task w)) (t_history (task w'))
     \<and> (t_state (task w) = Completed \<or> t_state (task w) = Failed \<longrightarrow> task w' = task w)"
proof -
  from run_total obtain w' where w': "run p evs w = Inr w'" by blast
  from run_grows[OF w'] have
    "prefix (t_artifacts (task w)) (t_artifacts (task w'))"
    "prefix (t_history (task w)) (t_history (task w'))"
    by simp_all
  moreover from this have
    "length (t_artifacts (task w)) \<le> length (t_artifacts (task w'))"
    "length (t_history (task w)) \<le> length (t_history (task w'))"
    by (simp_all add: prefix_length_le)
  moreover have "t_state (task w) = Completed \<or> t_state (task w) = Failed \<longrightarrow> task w' = task w"
    using run_terminal[of w p evs] w' by (auto simp: terminal_def)
  ultimately show ?thesis using w' by blast
qed


lemma transport_errors:
  assumes "t_state (task w) = Running" "\<not> cancel_requested w" "retries w \<le> retry_bound p"
  shows "\<exists>w'. run p (map (\<lambda>c. (c, Result (Error TransportError msg))) clocks) w = Inr w'
     \<and> t_state (task w') = (if retries w + length clocks \<le> retry_bound p then Running else Failed)
     \<and> dispatched w' = dispatched w @ replicate (min (length clocks) (retry_bound p - retries w)) (stage w)
     \<and> (retry_bound p < retries w + length clocks \<longrightarrow> t_error (task w') = Some msg)"
  using assms
proof (induction clocks arbitrary: w)
  case Nil
  then show ?case by simp
next
  case (Cons c clocks)
  show ?case
  proof (cases "retries w < retry_bound p")
    case True
    let ?w1 = "w\<lparr>task := appendMessage c (''stage:'' @ stage_name (stage w) @ '' retry'') (task w),
                 retries := Suc (retries w), dispatched := dispatched w @ [stage w]\<rparr>"
    from True Cons.prems have st: "step p c (Result (Error TransportError msg)) w = Inr ?w1"
      by simp
    have "t_state (task ?w1) = Running" "\<not> cancel_requested ?w1" "retries ?w1 \<le> retry_bound p"
      using True Cons.prems by (simp_all add: appendMessage_def)
    from Cons.IH[OF this] obtain w' where
      "run p (map (\<lambda>c. (c, Result (Error TransportError msg))) clocks) ?w1 = Inr w'"
      "t_state (task w') = (if retries ?w1 + length clocks \<le> retry_bound p then Running else Failed)"
      "dispatched w' = dispatched ?w1 @ replicate (min (length clocks) (retry_bound p - retries ?w1)) (stage ?w1)"
      "retry_bound p < retries ?w1 + length clocks \<longrightarrow> t_error (task w') = Some msg"
      by blast
    moreover have "min (Suc (length clocks)) (retry_bound p - retries w)
        = Suc (min (length clocks) (retry_bound p - Suc (retries w)))"
      using True by (auto simp: min_def)
    ultimately show ?thesis using st by (simp add: replicate_append_same del: step.simps)
  next
    case False
    with Cons.prems have r: "retries w = retry_bound p" by simp
    let ?w1 = "w\<lparr>task := (appendMessage c msg (task w))\<lparr>t_state := Failed, t_error := Some msg, updatedAt := c\<rparr>\<rparr>"
    from r Cons.prems have st: "step p c (Result (Error TransportError msg)) w = Inr ?w1"
      by (simp add: store_defs)
    have "terminal (t_state (task ?w1))" by (simp add: terminal_def)
    from run_terminal[OF this] have
      "run p (map (\<lambda>c. (c, Result (Error TransportError msg))) clocks) ?w1 = Inr ?w1" .
    with st r show ?thesis by (simp del: step.simps)
  qed
qed


text \<open>
  Claim C4. In a running stage, a rejection by the adapter fails the task at once, with
  the adapter's message and without another dispatch. A transport error is answered by
  a new dispatch of the same stage until the retry bound is spent: after \<open>n\<close> transport
  errors in a row the task is still running if the retries spent so far and \<open>n\<close> stay
  within the bound, and failed with the transport message otherwise.
\<close>
theorem retry_policy:
  "t_state (task w) = Running \<longrightarrow> \<not> cancel_requested w \<longrightarrow> retries w \<le> retry_bound p \<longrightarrow>
     (\<exists>w'. step p clock (Result (Error AdapterRejection reason)) w = Inr w'
        \<and> t_state (task w') = Failed \<and> t_error (task w') = Some reason
        \<and> dispatched w' = dispatched w \<and> retries w' = retries w)
   \<and> (\<exists>w'. run p (map (\<lambda>c. (c, Result (Error TransportError msg))) clocks) w = Inr w'
        \<and> t_state (task w') = (if retries w + length clocks \<le> retry_bound p then Running else Failed)
        \<and> dispatched w' =
            dispatched w @ replicate (min (length clocks) (retry_bound p - retries w)) (stage w)
        \<and> (retry_bound p < retries w + length clocks \<longrightarrow> t_error (task w') = Some msg))"
proof (intro impI conjI)
  assume a: "t_state (task w) = Running" "\<not> cancel_requested w" "retries w \<le> retry_bound p"
  from a(1,2) show "\<exists>w'. step p clock (Result (Error AdapterRejection reason)) w = Inr w'
        \<and> t_state (task w') = Failed \<and> t_error (task w') = Some reason
        \<and> dispatched w' = dispatched w \<and> retries w' = retries w"
    by (simp add: store_defs)
  from transport_errors[OF a]
  show "\<exists>w'. run p (map (\<lambda>c. (c, Result (Error TransportError msg))) clocks) w = Inr w'
        \<and> t_state (task w') = (if retries w + length clocks \<le> retry_bound p then Running else Failed)
        \<and> dispatched w' =
            dispatched w @ replicate (min (length clocks) (retry_bound p - retries w)) (stage w)
        \<and> (retry_bound p < retries w + length clocks \<longrightarrow> t_error (task w') = Some msg)" .
qed


lemma step_inv:
  assumes "step p c ev w = Inr w'" "stage w < length pipeline"
    "cancel_requested w \<longrightarrow> t_state (task w) = Running \<or> t_state (task w) = Failed"
  shows "stage w' < length pipeline
    \<and> (cancel_requested w' \<longrightarrow> t_state (task w') = Running \<or> t_state (task w') = Failed)
    \<and> instruction (t_input (task w')) = instruction (t_input (task w))"
  using assms
  by (cases ev; cases "t_state (task w)")
     (auto simp: store_defs Let_def split: agent_result.splits error_class.splits if_splits)

lemma run_inv:
  assumes "run p evs w = Inr w'" "stage w < length pipeline"
    "cancel_requested w \<longrightarrow> t_state (task w) = Running \<or> t_state (task w) = Failed"
  shows "stage w' < length pipeline
    \<and> (cancel_requested w' \<longrightarrow> t_state (task w') = Running \<or> t_state (task w') = Failed)
    \<and> instruction (t_input (task w')) = instruction (t_input (task w))"
  using assms
proof (induction evs arbitrary: w)
  case Nil
  then show ?case by simp
next
  case (Cons tev evs)
  obtain clock ev where tev: "tev = (clock, ev)" by (cases tev)
  from step_total obtain w1 where w1: "step p clock ev w = Inr w1" by blast
  with Cons.prems(1) tev have r: "run p evs w1 = Inr w'" by simp
  from step_inv[OF w1 Cons.prems(2,3)] Cons.IH[OF r] show ?case by simp
qed

lemma step_forward:
  assumes "step p c ev w = Inr w'" "t_state (task w) \<noteq> Pending"
  shows "t_state (task w') \<noteq> Pending \<and> stage w \<le> stage w'
    \<and> (\<exists>new. dispatched w' = dispatched w @ new \<and> (\<forall>j \<in> set new. stage w \<le> j))"
  using assms
  by (cases ev; cases "t_state (task w)")
     (auto simp: store_defs Let_def split: agent_result.splits error_class.splits if_splits)

lemma run_forward:
  assumes "run p evs w = Inr w'" "t_state (task w) \<noteq> Pending"
  shows "\<exists>new. dispatched w' = dispatched w @ new \<and> (\<forall>j \<in> set new. stage w \<le> j)"
  using assms
proof (induction evs arbitrary: w)
  case Nil
  then show ?case by simp
next
  case (Cons tev evs)
  obtain clock ev where tev: "tev = (clock, ev)" by (cases tev)
  from step_total obtain w1 where w1: "step p clock ev w = Inr w1" by blast
  with Cons.prems(1) tev have r: "run p evs w1 = Inr w'" by simp
  from step_forward[OF w1 Cons.prems(2)] obtain new1 where
    s: "t_state (task w1) \<noteq> Pending" "stage w \<le> stage w1"
    "dispatched w1 = dispatched w @ new1" "\<forall>j \<in> set new1. stage w \<le> j"
    by blast
  from Cons.IH[OF r s(1)] obtain new2 where
    n: "dispatched w' = dispatched w1 @ new2" "\<forall>j \<in> set new2. stage w1 \<le> j" by blast
  from s n have "dispatched w' = dispatched w @ (new1 @ new2)"
    "\<forall>j \<in> set (new1 @ new2). stage w \<le> j"
    by auto
  then show ?case by blast
qed

lemma ok_completes:
  assumes "t_state (task w) = Running" "\<not> cancel_requested w" "stage w < length pipeline"
    "length pipeline - stage w = n"
  shows "\<exists>w'. run p (replicate n (c, Result (Ok a))) w = Inr w' \<and> t_state (task w') = Completed"
  using assms
proof (induction n arbitrary: w)
  case 0
  then show ?case by simp
next
  case (Suc m)
  show ?case
  proof (cases "Suc (stage w) < length pipeline")
    case True
    let ?w1 = "enter_stage c (Suc (stage w))
                 (w\<lparr>task := appendMessage c (''stage:'' @ stage_name (stage w) @ '' done'')
                            (appendArtifact c a (task w))\<rparr>)"
    from True Suc.prems have st: "step p c (Result (Ok a)) w = Inr ?w1" by (simp add: Let_def)
    have "t_state (task ?w1) = Running" "\<not> cancel_requested ?w1" "stage ?w1 < length pipeline"
      "length pipeline - stage ?w1 = m"
      using True Suc.prems by (simp_all add: store_defs)
    from Suc.IH[OF this] st show ?thesis by (simp del: step.simps)
  next
    case False
    with Suc.prems have m: "m = 0" by simp
    from False Suc.prems have "\<exists>w'. step p c (Result (Ok a)) w = Inr w' \<and> t_state (task w') = Completed"
      by (simp add: Let_def store_defs)
    with m show ?thesis by (auto simp del: step.simps)
  qed
qed

text \<open>The invariant of the data model: an error is set exactly when the task is failed.\<close>

lemma step_error_iff_failed:
  assumes "step p c ev w = Inr w'" "t_state (task w) = Failed \<longleftrightarrow> t_error (task w) \<noteq> None"
  shows "t_state (task w') = Failed \<longleftrightarrow> t_error (task w') \<noteq> None"
  using assms
  by (cases ev; cases "t_state (task w)")
     (auto simp: store_defs Let_def split: agent_result.splits error_class.splits if_splits)

lemma run_error_iff_failed:
  assumes "run p evs w = Inr w'" "t_state (task w) = Failed \<longleftrightarrow> t_error (task w) \<noteq> None"
  shows "t_state (task w') = Failed \<longleftrightarrow> t_error (task w') \<noteq> None"
  using assms
proof (induction evs arbitrary: w)
  case Nil
  then show ?case by simp
next
  case (Cons tev evs)
  obtain clock ev where tev: "tev = (clock, ev)" by (cases tev)
  from step_total obtain w1 where w1: "step p clock ev w = Inr w1" by blast
  with Cons.prems(1) tev have r: "run p evs w1 = Inr w'" by simp
  from Cons.IH[OF r step_error_iff_failed[OF w1 Cons.prems(2)]] show ?case .
qed

lemma failed_task_has_error:
  assumes "run p evs (new_worker i c0 request) = Inr w"
  shows "t_state (task w) = Failed \<longleftrightarrow> t_error (task w) \<noteq> None"
  using run_error_iff_failed[OF assms] by (simp add: new_worker_def create_def)

lemma new_worker_inv:
  "stage (new_worker i c0 request) < length pipeline"
  "\<not> cancel_requested (new_worker i c0 request)"
  "instruction (t_input (task (new_worker i c0 request))) = request"
  by (simp_all add: new_worker_def create_def pipeline_def)

text \<open>
  Claim C5. For a task suspended in input-required at stage \<open>k\<close>, an answer is appended
  to the clarifications of the input and leaves the instruction as it was; the task runs
  again at stage \<open>k\<close>, which is dispatched again; whatever happens afterwards, no stage
  before \<open>k\<close> is dispatched; and the task can still reach completed.
\<close>
theorem answer_resumes_same_stage:
  assumes "run p evs (new_worker i c0 request) = Inr w" "t_state (task w) = Input_required"
  shows "\<exists>w'. step p clock (Answer a) w = Inr w'
     \<and> t_state (task w') = Running \<and> stage w' = stage w
     \<and> instruction (t_input (task w')) = request
     \<and> clarifications (t_input (task w')) = clarifications (t_input (task w)) @ [a]
     \<and> dispatched w' = dispatched w @ [stage w]
     \<and> (\<forall>evs' w''. run p evs' w' = Inr w'' \<longrightarrow>
          (\<forall>j \<in> set (drop (length (dispatched w)) (dispatched w'')). stage w \<le> j))
     \<and> (\<exists>evs' w''. run p evs' w' = Inr w'' \<and> t_state (task w'') = Completed)"
proof -
  from run_inv[OF assms(1)] new_worker_inv[of i c0 request] assms(2) have
    inv: "stage w < length pipeline" "\<not> cancel_requested w"
      "instruction (t_input (task w)) = request"
    by auto
  let ?w' = "w\<lparr>task := (task w)\<lparr>t_input := (t_input (task w))
                                \<lparr>clarifications := clarifications (t_input (task w)) @ [a]\<rparr>,
                          t_state := Running, t_error := t_error (task w), updatedAt := clock\<rparr>,
               dispatched := dispatched w @ [stage w]\<rparr>"
  from assms(2) have st: "step p clock (Answer a) w = Inr ?w'"
    by (simp add: store_defs)
  have fwd: "\<forall>evs' w''. run p evs' ?w' = Inr w'' \<longrightarrow>
          (\<forall>j \<in> set (drop (length (dispatched w)) (dispatched w'')). stage w \<le> j)"
  proof (intro allI impI)
    fix evs' w'' assume r: "run p evs' ?w' = Inr w''"
    have "t_state (task ?w') \<noteq> Pending" by simp
    from run_forward[OF r this] obtain new where
      "dispatched w'' = dispatched ?w' @ new" "\<forall>j \<in> set new. stage ?w' \<le> j" by blast
    then show "\<forall>j \<in> set (drop (length (dispatched w)) (dispatched w'')). stage w \<le> j"
      by auto
  qed
  have "t_state (task ?w') = Running" "\<not> cancel_requested ?w'" "stage ?w' < length pipeline"
    using inv by simp_all
  from ok_completes[OF this refl, of p clock "\<lparr>kind = [], payload = []\<rparr>"]
  have "\<exists>evs' w''. run p evs' ?w' = Inr w'' \<and> t_state (task w'') = Completed" by blast
  with st fwd inv show ?thesis by simp
qed


lemmas run_defs = new_worker_def create_def store_defs pipeline_def stage_name_def
  two_retries_def Let_def suspended_run_def full_run_def

text \<open>The states of the run that is suspended, answered and completed.\<close>
theorem states_follow_edges_witness:
  "map (\<lambda>w. t_state (task w)) (trace two_retries full_run (new_worker 7 0 ''weather API''))
     = [Pending, Running, Running, Input_required, Running, Running, Completed, Completed]
   \<and> successively
       (\<lambda>a b. (t_state (task b) = t_state (task a) \<or>
                (t_state (task a), t_state (task b)) \<in>
                  {(Pending, Running), (Running, Input_required), (Input_required, Running),
                   (Running, Completed), (Running, Failed), (Pending, Failed),
                   (Input_required, Failed)})
             \<and> (t_state (task a) = Completed \<or> t_state (task a) = Failed \<longrightarrow> b = a))
       (trace two_retries full_run (new_worker 7 0 ''weather API''))"
proof -
  have "map (\<lambda>w. t_state (task w)) (trace two_retries full_run (new_worker 7 0 ''weather API''))
     = [Pending, Running, Running, Input_required, Running, Running, Completed, Completed]"
    by (simp add: run_defs)
  with states_follow_edges[of two_retries full_run "new_worker 7 0 ''weather API''"]
  show ?thesis by blast
qed

text \<open>Events sent to the completed task change nothing.\<close>
theorem task_only_grows_witness:
  "\<exists>w w'. run two_retries full_run (new_worker 7 0 ''weather API'') = Inr w
     \<and> t_state (task w) = Completed
     \<and> run two_retries [(8, Result (Ok api_description)), (9, Answer ''again''), (10, Cancel)] w = Inr w'
     \<and> task w' = task w
     \<and> length (t_artifacts (task (new_worker 7 0 ''weather API''))) \<le> length (t_artifacts (task w))"
proof -
  obtain w where w: "run two_retries full_run (new_worker 7 0 ''weather API'') = Inr w"
    using run_total by blast
  then have c: "t_state (task w) = Completed"
    by (auto simp: run_defs)
  from task_only_grows[of two_retries full_run "new_worker 7 0 ''weather API''"] w
  have g: "length (t_artifacts (task (new_worker 7 0 ''weather API''))) \<le> length (t_artifacts (task w))"
    by auto
  from task_only_grows[of two_retries
      "[(8, Result (Ok api_description)), (9, Answer ''again''), (10, Cancel)]" w] c
  obtain w' where
    "run two_retries [(8, Result (Ok api_description)), (9, Answer ''again''), (10, Cancel)] w = Inr w'"
    "task w' = task w"
    by blast
  with w c g show ?thesis by blast
qed

text \<open>With a bound of two retries: a rejection, two timeouts, three timeouts.\<close>
theorem retry_policy_witness:
  "\<exists>w w1 w2 w3. run two_retries [(1, Start)] (new_worker 7 0 ''weather API'') = Inr w
     \<and> t_state (task w) = Running
     \<and> step two_retries 2 (Result (Error AdapterRejection ''spec is invalid'')) w = Inr w1
     \<and> t_state (task w1) = Failed \<and> t_error (task w1) = Some ''spec is invalid''
     \<and> dispatched w1 = [0]
     \<and> run two_retries (map (\<lambda>c. (c, Result (Error TransportError ''timeout''))) [2, 3]) w = Inr w2
     \<and> t_state (task w2) = Running \<and> dispatched w2 = [0, 0, 0]
     \<and> run two_retries (map (\<lambda>c. (c, Result (Error TransportError ''timeout''))) [2, 3, 4]) w = Inr w3
     \<and> t_state (task w3) = Failed \<and> dispatched w3 = [0, 0, 0]
     \<and> t_error (task w3) = Some ''timeout''"
proof -
  obtain w where w: "run two_retries [(1, Start)] (new_worker 7 0 ''weather API'') = Inr w"
    using run_total by blast
  then have f: "t_state (task w) = Running" "\<not> cancel_requested w" "retries w \<le> retry_bound two_retries"
    "dispatched w = [0]" "stage w = 0" "retries w = 0" "retry_bound two_retries = 2"
    by (auto simp: run_defs)
  from retry_policy[where w=w and p=two_retries and clock=2 and reason="''spec is invalid''"
      and msg="''timeout''" and clocks="[2, 3]"] f
  obtain w1 w2 where
    "step two_retries 2 (Result (Error AdapterRejection ''spec is invalid'')) w = Inr w1"
    "t_state (task w1) = Failed" "t_error (task w1) = Some ''spec is invalid''" "dispatched w1 = [0]"
    "run two_retries (map (\<lambda>c. (c, Result (Error TransportError ''timeout''))) [2, 3]) w = Inr w2"
    "t_state (task w2) = Running" "dispatched w2 = [0, 0, 0]"
    by (auto simp del: step.simps run.simps)
  moreover
  from retry_policy[where w=w and p=two_retries and clock=2 and reason="''spec is invalid''"
      and msg="''timeout''" and clocks="[2, 3, 4]"] f
  obtain w3 where
    "run two_retries (map (\<lambda>c. (c, Result (Error TransportError ''timeout''))) [2, 3, 4]) w = Inr w3"
    "t_state (task w3) = Failed" "dispatched w3 = [0, 0, 0]" "t_error (task w3) = Some ''timeout''"
    by (auto simp del: step.simps run.simps)
  ultimately show ?thesis using w f(1) by blast
qed

text \<open>The Synthesizer asks for a clarification and the caller answers.\<close>
theorem answer_resumes_same_stage_witness:
  "\<exists>w w'. run two_retries suspended_run (new_worker 7 0 ''weather API'') = Inr w
     \<and> t_state (task w) = Input_required \<and> stage w = 1
     \<and> step two_retries 4 (Answer ''version 2'') w = Inr w'
     \<and> t_state (task w') = Running \<and> stage w' = 1
     \<and> instruction (t_input (task w')) = ''weather API''
     \<and> clarifications (t_input (task w')) = [''version 2'']
     \<and> dispatched w' = [0, 1, 1]
     \<and> (\<exists>evs' w''. run two_retries evs' w' = Inr w'' \<and> t_state (task w'') = Completed)"
proof -
  obtain w where w: "run two_retries suspended_run (new_worker 7 0 ''weather API'') = Inr w"
    using run_total by blast
  then have f: "t_state (task w) = Input_required" "stage w = 1" "dispatched w = [0, 1]"
    "clarifications (t_input (task w)) = []"
    by (auto simp: run_defs)
  from answer_resumes_same_stage[OF w f(1), of 4 "''version 2''"] f
  obtain w' where
    "step two_retries 4 (Answer ''version 2'') w = Inr w'"
    "t_state (task w') = Running" "stage w' = 1"
    "instruction (t_input (task w')) = ''weather API''"
    "clarifications (t_input (task w')) = [''version 2'']"
    "dispatched w' = [0, 1, 1]"
    "\<exists>evs' w''. run two_retries evs' w' = Inr w'' \<and> t_state (task w'') = Completed"
    by (auto simp del: step.simps run.simps)
  with w f show ?thesis by blast
qed

end
